theory Spec2Isabelle
  imports Main "HOL-Library.AList" "HOL-Library.Multiset" "HOL-Library.List_Lexorder"
begin

section \<open>Text: Python strings as lists of code points\<close>

text \<open>
  A Python \<^verbatim>\<open>str\<close> is a sequence of Unicode code points, so a text is a list of
  natural numbers. \<open>cps\<close> reads an ASCII literal as such a list.
\<close>

type_synonym ustring = "nat list"

definition cps :: "string \<Rightarrow> ustring" where
  "cps s = map of_char s"

abbreviation (input) NL :: nat where "NL \<equiv> 10"
abbreviation (input) DQUOTE :: nat where "DQUOTE \<equiv> 34"
abbreviation (input) DOLLAR :: nat where "DOLLAR \<equiv> 36"
abbreviation (input) PERCENT :: nat where "PERCENT \<equiv> 37"
abbreviation (input) SQUOTE :: nat where "SQUOTE \<equiv> 39"
abbreviation (input) STAR :: nat where "STAR \<equiv> 42"
abbreviation (input) DASH :: nat where "DASH \<equiv> 45"
abbreviation (input) SLASH :: nat where "SLASH \<equiv> 47"
abbreviation (input) SEMI :: nat where "SEMI \<equiv> 59"
abbreviation (input) BACKSLASH :: nat where "BACKSLASH \<equiv> 92"
abbreviation (input) UNDERSCORE :: nat where "UNDERSCORE \<equiv> 95"
abbreviation (input) BOM :: nat where "BOM \<equiv> 65279"

text \<open>
  \<^verbatim>\<open>str.isspace\<close> for one code point: the ASCII white space of CPython's table and the
  code points of Unicode that are white space.
\<close>

definition isspace :: "nat \<Rightarrow> bool" where
  "isspace c \<longleftrightarrow>
     (9 \<le> c \<and> c \<le> 13) \<or> (28 \<le> c \<and> c \<le> 32) \<or> c = 133 \<or> c = 160 \<or> c = 5760 \<or>
     (8192 \<le> c \<and> c \<le> 8202) \<or> c = 8232 \<or> c = 8233 \<or> c = 8239 \<or> c = 8287 \<or> c = 12288"

text \<open>\<^verbatim>\<open>s.strip()\<close> and \<^verbatim>\<open>s.strip(chars)\<close>: both ends are trimmed.\<close>

definition strip_where :: "(nat \<Rightarrow> bool) \<Rightarrow> ustring \<Rightarrow> ustring" where
  "strip_where p s = rev (dropWhile p (rev (dropWhile p s)))"

definition strip :: "ustring \<Rightarrow> ustring" where
  "strip s = strip_where isspace s"

definition strip_chars :: "ustring \<Rightarrow> ustring \<Rightarrow> ustring" where
  "strip_chars chars s = strip_where (\<lambda>c. c \<in> set chars) s"

text \<open>\<^verbatim>\<open>s.startswith(t)\<close>.\<close>

definition startswith :: "ustring \<Rightarrow> ustring \<Rightarrow> bool" where
  "startswith s t \<longleftrightarrow> take (length t) s = t"

section \<open>The statement splitter (load/ddl.py, \<^verbatim>\<open>_split_sql_statements\<close>)\<close>

record SQLStmt =
  sql :: ustring
  start_line :: int

text \<open>
  The local variables of the scanner. \<open>rest\<close> is \<^verbatim>\<open>sql[i:]\<close>, the text from the
  current index on; \<open>buf\<close> is the joined buffer.
\<close>

record scan_state =
  out :: "SQLStmt list"
  buf :: ustring
  in_sq :: bool
  in_dq :: bool
  in_line_comment :: bool
  in_block_comment :: bool
  dollar_tag :: "ustring option"
  line :: int
  stmt_start_line :: int
  started :: bool
  rest :: ustring

definition init_state :: "ustring \<Rightarrow> scan_state" where
  "init_state s =
     \<lparr>out = [], buf = [], in_sq = False, in_dq = False, in_line_comment = False,
      in_block_comment = False, dollar_tag = None, line = 1, stmt_start_line = 1,
      started = False, rest = s\<rparr>"

definition flush :: "scan_state \<Rightarrow> scan_state" where
  "flush st =
     (let s = strip (buf st) in
      st\<lparr>out := (if s \<noteq> [] \<and> strip_chars [SEMI] (strip s) \<noteq> []
                  then out st @ [\<lparr>sql = s, start_line = stmt_start_line st\<rparr>]
                  else out st),
         buf := [],
         started := False\<rparr>)"

text \<open>The first two statements of the loop body: the line counter and the start mark.\<close>

definition enter :: "nat \<Rightarrow> scan_state \<Rightarrow> scan_state" where
  "enter ch st0 =
     (let st1 = (if ch = NL then st0\<lparr>line := line st0 + 1\<rparr> else st0)
      in if \<not> started st1 then st1\<lparr>stmt_start_line := line st1, started := True\<rparr> else st1)"

text \<open>
  The scan for the end of an opening dollar tag: the characters after the \<^verbatim>\<open>$\<close> that
  the inner \<^verbatim>\<open>while\<close> loop passes over, and what follows them.
\<close>

definition tag_body :: "(nat \<Rightarrow> bool) \<Rightarrow> ustring \<Rightarrow> ustring" where
  "tag_body alnum cs = takeWhile (\<lambda>c. c \<noteq> DOLLAR \<and> (alnum c \<or> c = UNDERSCORE)) cs"

definition tag_after :: "(nat \<Rightarrow> bool) \<Rightarrow> ustring \<Rightarrow> ustring" where
  "tag_after alnum cs = dropWhile (\<lambda>c. c \<noteq> DOLLAR \<and> (alnum c \<or> c = UNDERSCORE)) cs"

text \<open>
  The part of the loop body from the check for quotes on; \<open>st\<close> is in none of the
  comment states and in no dollar-quoted block.
\<close>

definition step_code :: "(nat \<Rightarrow> bool) \<Rightarrow> nat \<Rightarrow> ustring \<Rightarrow> scan_state \<Rightarrow> scan_state" where
  "step_code alnum ch cs st =
     (if ch = SQUOTE \<and> \<not> in_dq st then
        (if in_sq st then
           (case cs of
              c # cs' \<Rightarrow>
                if c = SQUOTE then st\<lparr>buf := buf st @ [ch, c], rest := cs'\<rparr>
                else st\<lparr>buf := buf st @ [ch], in_sq := False, rest := cs\<rparr>
            | [] \<Rightarrow> st\<lparr>buf := buf st @ [ch], in_sq := False, rest := cs\<rparr>)
         else st\<lparr>buf := buf st @ [ch], in_sq := True, rest := cs\<rparr>)
      else if ch = DQUOTE \<and> \<not> in_sq st then
        st\<lparr>buf := buf st @ [ch], in_dq := \<not> in_dq st, rest := cs\<rparr>
      else if ch = DOLLAR \<and> \<not> in_sq st \<and> \<not> in_dq st
              \<and> (case tag_after alnum cs of c # _ \<Rightarrow> c = DOLLAR | [] \<Rightarrow> False) then
        (let tag = ch # tag_body alnum cs @ [DOLLAR]
         in st\<lparr>dollar_tag := Some tag, buf := buf st @ tag, rest := tl (tag_after alnum cs)\<rparr>)
      else if ch = SEMI \<and> \<not> in_sq st \<and> \<not> in_dq st then
        (flush (st\<lparr>buf := buf st @ [ch]\<rparr>))\<lparr>rest := cs\<rparr>
      else st\<lparr>buf := buf st @ [ch], rest := cs\<rparr>)"

text \<open>One iteration of the \<^verbatim>\<open>while i < n\<close> loop.\<close>

definition step :: "(nat \<Rightarrow> bool) \<Rightarrow> scan_state \<Rightarrow> scan_state" where
  "step alnum st0 =
     (case rest st0 of
        [] \<Rightarrow> st0
      | ch # cs \<Rightarrow>
          (let st = enter ch st0 in
           if in_line_comment st then
             st\<lparr>buf := buf st @ [ch], in_line_comment := (ch \<noteq> NL), rest := cs\<rparr>
           else if in_block_comment st then
             (case cs of
                c # cs' \<Rightarrow>
                  if ch = STAR \<and> c = SLASH
                  then st\<lparr>buf := buf st @ [ch, c], in_block_comment := False, rest := cs'\<rparr>
                  else st\<lparr>buf := buf st @ [ch], rest := cs\<rparr>
              | [] \<Rightarrow> st\<lparr>buf := buf st @ [ch], rest := cs\<rparr>)
           else
             (case dollar_tag st of
                Some tag \<Rightarrow>
                  if ch = DOLLAR \<and> startswith (ch # cs) tag
                  then st\<lparr>buf := buf st @ [ch] @ take (length tag - 1) cs,
                          dollar_tag := None,
                          rest := drop (length tag) (ch # cs)\<rparr>
                  else st\<lparr>buf := buf st @ [ch], rest := cs\<rparr>
              | None \<Rightarrow>
                  if \<not> in_sq st \<and> \<not> in_dq st \<and> ch = DASH
                     \<and> (case cs of c # _ \<Rightarrow> c = DASH | [] \<Rightarrow> False) then
                    st\<lparr>buf := buf st @ [ch, DASH], in_line_comment := True, rest := tl cs\<rparr>
                  else if \<not> in_sq st \<and> \<not> in_dq st \<and> ch = SLASH
                     \<and> (case cs of c # _ \<Rightarrow> c = STAR | [] \<Rightarrow> False) then
                    st\<lparr>buf := buf st @ [ch, STAR], in_block_comment := True, rest := tl cs\<rparr>
                  else step_code alnum ch cs st)))"

text \<open>
  The loop. With an empty \<open>dollar_tag\<close> the source would not advance, so the loop is a
  partial function; \<open>None\<close> stands for not returning.
\<close>

partial_function (option) scan :: "(nat \<Rightarrow> bool) \<Rightarrow> scan_state \<Rightarrow> scan_state option" where
  "scan alnum st = (if rest st = [] then Some st else scan alnum (step alnum st))"

declare scan.simps [code]

definition split_sql_statements :: "(nat \<Rightarrow> bool) \<Rightarrow> ustring \<Rightarrow> SQLStmt list option" where
  "split_sql_statements alnum s =
     map_option (\<lambda>st. out (flush st)) (scan alnum (init_state (filter (\<lambda>c. c \<noteq> BOM) s)))"

text \<open>
  \<^verbatim>\<open>str.isalnum\<close> on ASCII text, where it is true of the digits and the letters; the
  concrete inputs below are ASCII.
\<close>

definition ascii_alnum :: "nat \<Rightarrow> bool" where
  "ascii_alnum c \<longleftrightarrow> (48 \<le> c \<and> c \<le> 57) \<or> (65 \<le> c \<and> c \<le> 90) \<or> (97 \<le> c \<and> c \<le> 122)"

text \<open>The lexical states of the scanner.\<close>

definition normal :: "scan_state \<Rightarrow> bool" where
  "normal st \<longleftrightarrow>
     \<not> in_sq st \<and> \<not> in_dq st \<and> \<not> in_line_comment st \<and> \<not> in_block_comment st
     \<and> dollar_tag st = None"

definition protected :: "scan_state \<Rightarrow> bool" where
  "protected st \<longleftrightarrow>
     in_sq st \<or> in_dq st \<or> in_line_comment st \<or> in_block_comment st \<or> dollar_tag st \<noteq> None"

text \<open>Every tag the scanner stores starts with \<^verbatim>\<open>$\<close>; in particular it is not empty.\<close>

definition tag_ok :: "scan_state \<Rightarrow> bool" where
  "tag_ok st \<longleftrightarrow> (\<forall>t. dollar_tag st = Some t \<longrightarrow> t \<noteq> [])"





text \<open>
  The iterations that only copy the current character to the buffer, one and many; the
  scanner inside each of the five contexts; and an iteration outside every context on a
  character that opens none, which ends the statement when the character is \<^verbatim>\<open>;\<close>.
\<close>

definition absorb_char :: "nat \<Rightarrow> scan_state \<Rightarrow> scan_state" where
  "absorb_char c st = (enter c st)\<lparr>buf := buf st @ [c]\<rparr>"

fun absorb :: "ustring \<Rightarrow> scan_state \<Rightarrow> scan_state" where
  "absorb [] st = st"
| "absorb (c # cs) st = absorb cs (absorb_char c st)"







section \<open>The load plan (load/load_strategy.py)\<close>

datatype LoadMode = INSERT | SKIP

text \<open>
  A table to load. The optional \<^verbatim>\<open>preprocess\<close> hook, which none of the functions below
  calls, is left out.
\<close>

record TableSpec =
  name :: ustring
  df_key :: "ustring option"
  depends_on :: "ustring list"
  mode :: LoadMode

text \<open>\<^verbatim>\<open>TableSpec.key\<close>: \<^verbatim>\<open>self.df_key or self.name\<close>; an empty string is falsy.\<close>

definition key :: "TableSpec \<Rightarrow> ustring" where
  "key s = (case df_key s of None \<Rightarrow> name s | Some k \<Rightarrow> if k = [] then name s else k)"

text \<open>
  \<^verbatim>\<open>LoadPlanError\<close> with what its message names, and the \<^verbatim>\<open>KeyError\<close> that a lookup
  in \<^verbatim>\<open>by_name\<close> can raise.
\<close>

datatype LoadPlanError =
  Missing_dependency ustring ustring
  | Cycle "(ustring \<times> ustring set) list"
  | Missing_dataframes "ustring list"
  | Key_error ustring

text \<open>
  The two dictionaries of \<^verbatim>\<open>_toposort\<close>, as association lists in insertion order: a
  repeated key keeps its place and takes the later value, as in Python.
\<close>

definition by_name_of :: "TableSpec list \<Rightarrow> (ustring \<times> TableSpec) list" where
  "by_name_of specs_list = foldl (\<lambda>d s. AList.update (name s) s d) [] specs_list"

definition incoming_of :: "TableSpec list \<Rightarrow> (ustring \<times> ustring set) list" where
  "incoming_of specs_list =
     foldl (\<lambda>d s. AList.update (name s) (set (depends_on s)) d) [] specs_list"

text \<open>The check that every dependency names a spec: the first one that does not is reported.\<close>

fun check_deps :: "(ustring \<times> TableSpec) list \<Rightarrow> TableSpec list \<Rightarrow> LoadPlanError option" where
  "check_deps by_name [] = None"
| "check_deps by_name (s # ss) =
     (case find (\<lambda>d. map_of by_name d = None) (depends_on s) of
        Some d \<Rightarrow> Some (Missing_dependency d (name s))
      | None \<Rightarrow> check_deps by_name ss)"

text \<open>
  The inner loop \<^verbatim>\<open>for m in incoming\<close> after \<open>n\<close> was popped: \<open>n\<close> is removed from every
  set that holds it, and a key whose set becomes empty is appended to \<open>ready\<close>.
\<close>

fun relax :: "ustring \<Rightarrow> (ustring \<times> ustring set) list \<Rightarrow> ustring list
    \<Rightarrow> (ustring \<times> ustring set) list \<times> ustring list" where
  "relax n [] ready = ([], ready)"
| "relax n ((m, deps) # tl_inc) ready =
     (if n \<in> deps then
        (let deps' = deps - {n};
             ready' = (if deps' = {} then ready @ [m] else ready);
             r = relax n tl_inc ready'
         in ((m, deps') # fst r, snd r))
      else (let r = relax n tl_inc ready in ((m, deps) # fst r, snd r)))"

text \<open>The measure under which the \<^verbatim>\<open>while ready\<close> loop terminates.\<close>

definition weight :: "(ustring \<times> ustring set) list \<Rightarrow> nat" where
  "weight incoming = sum_list (map (\<lambda>(m, deps). 2 * card deps) incoming)"

lemma relax_weight:
  "length (snd (relax n incoming ready)) + weight (fst (relax n incoming ready))
     \<le> length ready + weight incoming"
proof (induction incoming arbitrary: ready)
  case Nil
  then show ?case by (simp add: weight_def)
next
  case (Cons a incoming)
  obtain m deps where a: "a = (m, deps)" by (cases a)
  show ?case
  proof (cases "n \<in> deps")
    case False
    then show ?thesis using Cons.IH [of ready] a by (simp add: weight_def Let_def)
  next
    case True
    show ?thesis
    proof (cases "finite deps")
      case fin: True
      then have c: "card (deps - {n}) = card deps - 1" "card deps > 0"
        using True by (auto simp: card_gt_0_iff)
      show ?thesis
      proof (cases "deps - {n} = {}")
        case e: True
        then show ?thesis
          using Cons.IH [of "ready @ [m]"] a True c by (simp add: weight_def Let_def)
      next
        case ne: False
        then show ?thesis
          using Cons.IH [of ready] a True c by (simp add: weight_def Let_def)
      qed
    next
      case inf: False
      then have "deps - {n} \<noteq> {}" by (metis finite.emptyI finite_Diff2 finite_insert)
      then show ?thesis
        using Cons.IH [of ready] a True inf by (simp add: weight_def Let_def)
    qed
  qed
qed

text \<open>
  The loop \<^verbatim>\<open>while ready\<close>: \<^verbatim>\<open>ready.pop()\<close> takes the last element. It returns the
  dictionary \<open>incoming\<close> as the loop leaves it and the list \<open>ordered\<close>.
\<close>

function kahn :: "(ustring \<times> TableSpec) list \<Rightarrow> (ustring \<times> ustring set) list \<Rightarrow> ustring list
    \<Rightarrow> TableSpec list \<Rightarrow> LoadPlanError + ((ustring \<times> ustring set) list \<times> TableSpec list)" where
  "kahn by_name incoming ready ordered =
     (if ready = [] then Inr (incoming, ordered)
      else
        (case map_of by_name (last ready) of
           None \<Rightarrow> Inl (Key_error (last ready))
         | Some s \<Rightarrow>
             kahn by_name (fst (relax (last ready) incoming (butlast ready)))
               (snd (relax (last ready) incoming (butlast ready))) (ordered @ [s])))"
  by pat_completeness auto
termination
proof (relation "measure (\<lambda>(by_name, incoming, ready, ordered). length ready + weight incoming)")
  show "wf (measure (\<lambda>(by_name, incoming, ready, ordered). length ready + weight incoming))"
    by simp
next
  fix by_name :: "(ustring \<times> TableSpec) list" and incoming and ready :: "ustring list"
    and ordered :: "TableSpec list" and s
  assume "ready \<noteq> []"
  then have "length (butlast ready) < length ready" by simp
  then show "((by_name, fst (relax (last ready) incoming (butlast ready)),
        snd (relax (last ready) incoming (butlast ready)), ordered @ [s]),
       by_name, incoming, ready, ordered)
      \<in> measure (\<lambda>(by_name, incoming, ready, ordered). length ready + weight incoming)"
    using relax_weight [of "last ready" incoming "butlast ready"] by simp
qed

declare kahn.simps [simp del]

definition toposort :: "TableSpec list \<Rightarrow> LoadPlanError + TableSpec list" where
  "toposort specs_list =
     (let by_name = by_name_of specs_list in
      case check_deps by_name specs_list of
        Some e \<Rightarrow> Inl e
      | None \<Rightarrow>
          (let incoming = incoming_of specs_list;
               ready = map fst (filter (\<lambda>(n, deps). deps = {}) incoming)
           in case kahn by_name incoming ready [] of
                Inl e \<Rightarrow> Inl e
              | Inr (incoming', ordered) \<Rightarrow>
                  if length ordered \<noteq> length specs_list
                  then Inl (Cycle (filter (\<lambda>(k, v). v \<noteq> {}) incoming'))
                  else Inr ordered))"

text \<open>\<^verbatim>\<open>LoadPlan\<close> and its \<^verbatim>\<open>__post_init__\<close>, which resolves the order or raises.\<close>

record LoadPlan =
  specs :: "TableSpec list"
  order :: "TableSpec list"

definition new_LoadPlan :: "TableSpec list \<Rightarrow> LoadPlanError + LoadPlan" where
  "new_LoadPlan ss =
     (case toposort ss of Inl e \<Rightarrow> Inl e | Inr ordered \<Rightarrow> Inr \<lparr>specs = ss, order = ordered\<rparr>)"


text \<open>\<^verbatim>\<open>TableSpec(name, depends_on=deps)\<close>, with the defaults of the other fields.\<close>

definition table_spec :: "ustring \<Rightarrow> ustring list \<Rightarrow> TableSpec" where
  "table_spec n deps = \<lparr>name = n, df_key = None, depends_on = deps, mode = INSERT\<rparr>"

text \<open>Every dependency names a spec of the collection.\<close>

definition deps_present :: "TableSpec list \<Rightarrow> bool" where
  "deps_present ss \<longleftrightarrow> (\<forall>s\<in>set ss. \<forall>d\<in>set (depends_on s). d \<in> name ` set ss)"

text \<open>
  The dependency relation of a collection of specs: \<open>(m, d)\<close> when a spec named \<open>m\<close>
  depends on \<open>d\<close>. \<open>dep_graph\<close> is the graph that \<^verbatim>\<open>_toposort\<close> sorts: when a name is
  repeated, the dictionary keeps the dependencies of the last spec of that name. For
  distinct names the two are the same relation.
\<close>

definition dep_rel :: "TableSpec list \<Rightarrow> (ustring \<times> ustring) set" where
  "dep_rel ss = {(name s, d) | s d. s \<in> set ss \<and> d \<in> set (depends_on s)}"

definition dep_graph :: "TableSpec list \<Rightarrow> (ustring \<times> ustring) set" where
  "dep_graph ss = {(m, d). \<exists>deps. map_of (incoming_of ss) m = Some deps \<and> d \<in> deps}"

text \<open>
  The invariant of the loop, relative to the dictionary \<open>inc0\<close> at its start: \<open>inc\<close> is
  \<open>inc0\<close> without the names ordered so far; \<open>ready\<close> and the ordered names are disjoint
  and together are the keys whose dependencies are all ordered; every ordered spec
  comes after its dependencies.
\<close>

definition kahn_inv :: "(ustring \<times> TableSpec) list \<Rightarrow> (ustring \<times> ustring set) list \<Rightarrow>
    (ustring \<times> ustring set) list \<Rightarrow> ustring list \<Rightarrow> TableSpec list \<Rightarrow> bool" where
  "kahn_inv bn inc0 inc ready ord \<longleftrightarrow>
     inc = map (\<lambda>(m, deps). (m, deps - name ` set ord)) inc0 \<and>
     distinct ready \<and> distinct (map name ord) \<and> set ready \<inter> name ` set ord = {} \<and>
     set ready \<union> name ` set ord = {m. \<exists>deps. map_of inc0 m = Some deps \<and> deps \<subseteq> name ` set ord} \<and>
     (\<forall>i<length ord. \<exists>deps. map_of inc0 (name (ord ! i)) = Some deps
         \<and> deps \<subseteq> name ` set (take i ord)) \<and>
     (\<forall>s\<in>set ord. map_of bn (name s) = Some s)"

section \<open>Datasets and column metadata (load/load.py, load/ddl.py)\<close>

text \<open>
  A pandas DataFrame, as far as the loader looks at it: the columns in order, each with
  its label, its dtype and its values, and the number of rows. Labels are strings. A
  cell is a value or one of the missing values \<^verbatim>\<open>NaN\<close>, \<^verbatim>\<open>NaT\<close> and \<^verbatim>\<open>None\<close>. Of the
  dtypes only the difference between \<^verbatim>\<open>object\<close> and the typed columns matters below.
\<close>

datatype cell = NaN | NaT | PyNone | Val ustring

datatype dtype = Object | Float64 | Datetime64 | Other_dtype

record DataFrame =
  series :: "(ustring \<times> dtype \<times> cell list) list"
  n_rows :: nat

text \<open>\<^verbatim>\<open>df.columns\<close> and \<^verbatim>\<open>df.empty\<close> (some axis has length 0).\<close>

definition columns :: "DataFrame \<Rightarrow> ustring list" where
  "columns df = map fst (series df)"

definition empty_df :: "DataFrame \<Rightarrow> bool" where
  "empty_df df \<longleftrightarrow> series df = [] \<or> n_rows df = 0"

text \<open>
  \<^verbatim>\<open>df[labels]\<close> for a list of labels: for each label in turn, the columns that carry it.
  pandas raises \<^verbatim>\<open>KeyError\<close> for a label that no column carries; the loader only
  selects labels that it has read from \<^verbatim>\<open>df.columns\<close>.
\<close>

definition getitem :: "DataFrame \<Rightarrow> ustring list \<Rightarrow> DataFrame" where
  "getitem df labels =
     df\<lparr>series := concat (map (\<lambda>l. filter (\<lambda>(c, v). c = l) (series df)) labels)\<rparr>"

text \<open>\<^verbatim>\<open>df.columns = [str(c).strip() for c in df.columns]\<close>.\<close>

definition strip_columns :: "DataFrame \<Rightarrow> DataFrame" where
  "strip_columns df = df\<lparr>series := map (\<lambda>(c, v). (strip c, v)) (series df)\<rparr>"

text \<open>
  \<^verbatim>\<open>_normalize_nulls\<close>: \<^verbatim>\<open>df.where(pd.notnull(df), None)\<close>. In a column of dtype
  \<^verbatim>\<open>object\<close> every missing value becomes \<^verbatim>\<open>None\<close>. A typed column keeps its dtype, and
  pandas stores the replacement \<^verbatim>\<open>None\<close> as the missing value of that dtype, so its
  \<^verbatim>\<open>NaN\<close> or \<^verbatim>\<open>NaT\<close> cells stay as they are.
\<close>

definition notnull :: "cell \<Rightarrow> bool" where
  "notnull x \<longleftrightarrow> (case x of Val _ \<Rightarrow> True | _ \<Rightarrow> False)"

definition normalize_nulls :: "DataFrame \<Rightarrow> DataFrame" where
  "normalize_nulls df =
     df\<lparr>series :=
          map (\<lambda>(c, d, v). (c, d, if d = Object then map (\<lambda>x. if notnull x then x else PyNone) v
                                    else v))
            (series df)\<rparr>"

text \<open>
  \<^verbatim>\<open>ColumnMeta\<close>; the field \<^verbatim>\<open>name\<close> is \<open>column_name\<close> here, the name of the field of the
  query it is read from.
\<close>

record ColumnMeta =
  column_name :: ustring
  is_nullable :: bool
  has_default :: bool
  is_identity :: bool

text \<open>
  The exceptions of the loader and of the script runners, each with what its message
  names. \<open>Database_error\<close> is SQLAlchemy's \<^verbatim>\<open>DBAPIError\<close> (or the driver's error) with its
  SQLSTATE, \<open>Other_exception\<close> any other exception of a library call. \<open>Never_returns\<close>
  stands for a call of the statement splitter that does not return; it never occurs
  (\<open>split_sql_statements_total\<close>).
\<close>

datatype load_error =
  ValueError_dsn
  | ValueError_no_table ustring ustring
  | ValueError_missing_required ustring ustring "ustring list"
  | ValueError_extra_columns ustring ustring "ustring list"
  | TypeError_not_dataframe ustring
  | RuntimeError_target_table ustring ustring
  | FileNotFoundError_dir ustring
  | FileNotFoundError_file ustring ustring
  | Plan_error LoadPlanError
  | Database_error "ustring option"
  | Other_exception
  | Never_returns

text \<open>
  The log records, each with the arguments of its format string: schema and table,
  file name, statement index, starting line, the head of the statement.
\<close>

datatype log_msg =
  Info_drop_schema ustring
  | Info_no_tables
  | Info_truncate_ok nat
  | Info_ddl_only
  | Warn_table_missing ustring ustring ustring
  | Info_loading ustring ustring nat nat
  | Warn_no_sync ustring ustring
  | Info_empty_file ustring
  | Info_running ustring
  | Warn_meta_command ustring nat int ustring
  | Warn_ignored_error ustring nat int "ustring option"
  | Error_ddl ustring nat int ustring
  | Exception_continuing ustring nat int
  | Warn_extra_columns ustring ustring "ustring list"

text \<open>
  \<^verbatim>\<open>_validate_and_align_df\<close>. \<open>meta\<close> is what \<^verbatim>\<open>get_table_columns_meta\<close> has read from
  the catalogue, in ordinal position. The result is the error raised, or the warnings
  logged and the aligned frame. \<^verbatim>\<open>sorted\<close> of a set of strings is the sorted list of
  the set in the lexicographic order of the code points.
\<close>

definition required_columns :: "ColumnMeta list \<Rightarrow> ustring set" where
  "required_columns meta =
     set (map column_name
       (filter (\<lambda>c. \<not> is_nullable c \<and> \<not> has_default c \<and> \<not> is_identity c) meta))"

definition validate_and_align_df ::
  "ColumnMeta list \<Rightarrow> DataFrame \<Rightarrow> ustring \<Rightarrow> ustring \<Rightarrow> bool
     \<Rightarrow> load_error + (log_msg list \<times> DataFrame)" where
  "validate_and_align_df meta df0 schema table drop_extra =
     (if meta = [] then Inl (ValueError_no_table schema table)
      else
        (let df = strip_columns df0;
             db_cols = map column_name meta;
             df_cols = columns df;
             missing_required = required_columns meta - set df_cols
         in if missing_required \<noteq> {}
            then Inl (ValueError_missing_required schema table
                        (sorted_list_of_set missing_required))
            else
              (let extra = set df_cols - set db_cols
               in if extra \<noteq> {} \<and> \<not> drop_extra
                  then Inl (ValueError_extra_columns schema table (sorted_list_of_set extra))
                  else
                    (let warnings = (if extra \<noteq> {}
                           then [Warn_extra_columns schema table (sorted_list_of_set extra)]
                           else []);
                         df2 = (if extra \<noteq> {}
                           then getitem df (filter (\<lambda>c. c \<in> set db_cols) df_cols)
                           else df);
                         ordered = filter (\<lambda>c. c \<in> set (columns df2)) db_cols
                     in Inr (warnings, getitem df2 ordered)))))"




abbreviation (input) DOT :: nat where "DOT \<equiv> 46"

section \<open>The database and the file system, as the loader meets them\<close>

text \<open>
  What a statement sent to the database comes back with: it is done, or the call raises
  \<^verbatim>\<open>DBAPIError\<close> (with the SQLSTATE of the driver's error, if it has one), or it raises
  another exception.
\<close>

datatype db_outcome = Done | DBAPIError "ustring option" | Other_error

text \<open>
  The effects of a run, in order: transactions opened and closed
  (\<^verbatim>\<open>with engine.begin()\<close>), statements sent, frames written with \<^verbatim>\<open>to_sql\<close>
  (schema, table, frame, chunk size; always appending), sequences set, and log records.
\<close>

datatype event =
  Begin
  | Commit
  | Rollback
  | Exec_sql ustring
  | To_sql ustring ustring DataFrame int
  | Setval ustring "int option"
  | Echo_on
  | Log log_msg

text \<open>
  Everything outside the program: the environment variables, the script directory, the
  driver's parameter style, \<^verbatim>\<open>str.isalnum\<close>, and the database. What the database
  answers may depend on all that was done to it before, so each of its answers is a
  function of the effects so far. Queries that only read the catalogue are taken to
  return.
\<close>

record world =
  getenv :: "ustring \<Rightarrow> ustring option"
  default_sql_dir :: ustring
  dir_exists :: "ustring \<Rightarrow> bool"
  read_file :: "ustring \<Rightarrow> ustring \<Rightarrow> ustring option"
  isalnum :: "nat \<Rightarrow> bool"
  paramstyle :: "ustring option"
  exec_outcome :: "event list \<Rightarrow> ustring \<Rightarrow> db_outcome"
  to_sql_outcome :: "event list \<Rightarrow> ustring \<Rightarrow> ustring \<Rightarrow> DataFrame \<Rightarrow> db_outcome"
  table_exists :: "event list \<Rightarrow> ustring \<Rightarrow> ustring \<Rightarrow> bool"
  base_tables :: "event list \<Rightarrow> ustring \<Rightarrow> (ustring \<times> ustring) list"
  columns_meta :: "event list \<Rightarrow> ustring \<Rightarrow> ustring \<Rightarrow> ColumnMeta list"
  id_column_exists :: "event list \<Rightarrow> ustring \<Rightarrow> ustring \<Rightarrow> ustring \<Rightarrow> bool"
  serial_sequence :: "event list \<Rightarrow> ustring \<Rightarrow> ustring \<Rightarrow> ustring option"
  max_id :: "event list \<Rightarrow> ustring \<Rightarrow> ustring \<Rightarrow> ustring \<Rightarrow> int option"
  setval_outcome :: "event list \<Rightarrow> ustring \<Rightarrow> int option \<Rightarrow> db_outcome"

text \<open>The exception that a failed call raises.\<close>

definition raised :: "db_outcome \<Rightarrow> load_error" where
  "raised r = (case r of DBAPIError st \<Rightarrow> Database_error st | _ \<Rightarrow> Other_exception)"

text \<open>\<^verbatim>\<open>_quote_ident\<close>, \<^verbatim>\<open>s.replace("%", "%%")\<close> and \<^verbatim>\<open>sep.join(xs)\<close>.\<close>

definition quote_ident :: "ustring \<Rightarrow> ustring" where
  "quote_ident n = [DQUOTE] @ concat (map (\<lambda>c. if c = DQUOTE then [DQUOTE, DQUOTE] else [c]) n) @ [DQUOTE]"

definition escape_percent :: "ustring \<Rightarrow> ustring" where
  "escape_percent s = concat (map (\<lambda>c. if c = PERCENT then [PERCENT, PERCENT] else [c]) s)"

definition join :: "ustring \<Rightarrow> ustring list \<Rightarrow> ustring" where
  "join sep xs = (case xs of [] \<Rightarrow> [] | x # ys \<Rightarrow> x @ concat (map (\<lambda>y. sep @ y) ys))"

text \<open>
  \<^verbatim>\<open>PostgresClient.exec\<close>, \<^verbatim>\<open>drop_schema\<close> and \<^verbatim>\<open>create_schema\<close>: one statement in a
  transaction of its own.
\<close>

definition pg_exec :: "world \<Rightarrow> ustring \<Rightarrow> event list \<Rightarrow> load_error option \<times> event list" where
  "pg_exec w q tr =
     (case exec_outcome w (tr @ [Begin]) q of
        Done \<Rightarrow> (None, tr @ [Begin, Exec_sql q, Commit])
      | r \<Rightarrow> (Some (raised r), tr @ [Begin, Exec_sql q, Rollback]))"

definition drop_schema :: "world \<Rightarrow> ustring \<Rightarrow> event list \<Rightarrow> load_error option \<times> event list" where
  "drop_schema w s tr =
     pg_exec w (cps ''DROP SCHEMA IF EXISTS '' @ [DQUOTE] @ s @ [DQUOTE] @ cps '' CASCADE;'') tr"

definition create_schema :: "world \<Rightarrow> ustring \<Rightarrow> event list \<Rightarrow> load_error option \<times> event list" where
  "create_schema w s tr =
     pg_exec w (cps ''CREATE SCHEMA IF NOT EXISTS '' @ [DQUOTE] @ s @ [DQUOTE] @ cps '';'') tr"

text \<open>A \<^verbatim>\<open>for\<close> loop whose body may raise: the first exception ends it.\<close>

fun for_each :: "('a \<Rightarrow> 's \<Rightarrow> 'e option \<times> 's) \<Rightarrow> 'a list \<Rightarrow> 's \<Rightarrow> 'e option \<times> 's" where
  "for_each body [] s = (None, s)"
| "for_each body (x # xs) s =
     (case body x s of
        (Some e, s') \<Rightarrow> (Some e, s')
      | (None, s') \<Rightarrow> for_each body xs s')"

text \<open>\<^verbatim>\<open>_truncate_all_tables\<close>; the result is the number of tables truncated.\<close>

definition truncate_all_tables ::
  "world \<Rightarrow> ustring list \<Rightarrow> event list \<Rightarrow> (load_error + nat) \<times> event list" where
  "truncate_all_tables w schemas tr =
     (if schemas = [] then (Inr 0, tr)
      else
        (let tr1 = tr @ [Begin];
             tables = concat (map (base_tables w tr1) schemas)
         in if tables = [] then (Inr 0, tr1 @ [Commit])
            else
              (let qualified = join (cps '', '')
                     (map (\<lambda>(s, t). quote_ident s @ cps ''.'' @ quote_ident t) tables);
                   q = cps ''TRUNCATE TABLE '' @ qualified @ cps '' RESTART IDENTITY CASCADE;''
               in case exec_outcome w tr1 q of
                    Done \<Rightarrow> (Inr (length tables), tr1 @ [Exec_sql q, Commit])
                  | r \<Rightarrow> (Inl (raised r), tr1 @ [Exec_sql q, Rollback]))))"

text \<open>
  \<^verbatim>\<open>run_sql_files\<close> (load/ddl.py): the body of the loop over the statements of one
  file (\<open>idx\<close> counts from 1), the body of the loop over the files, and the function.
\<close>

definition run_statement ::
  "world \<Rightarrow> ustring \<Rightarrow> bool \<Rightarrow> ustring set \<Rightarrow> nat \<times> SQLStmt \<Rightarrow> event list
     \<Rightarrow> load_error option \<times> event list" where
  "run_statement w fname fail_fast ignore_sqlstates ist tr =
     (let idx = fst ist; st = snd ist; stmt_clean = strip (sql st)
      in if stmt_clean = [] then (None, tr)
         else if startswith stmt_clean [BACKSLASH] then
           (None, tr @ [Log (Warn_meta_command fname idx (start_line st) (take 120 stmt_clean))])
         else
           (let escape_pct = (paramstyle w = Some (cps ''pyformat'') \<or> paramstyle w = Some (cps ''format''));
                stmt_to_exec = (if escape_pct then escape_percent stmt_clean else stmt_clean)
            in case exec_outcome w tr stmt_to_exec of
                 Done \<Rightarrow> (None, tr @ [Exec_sql stmt_to_exec])
               | DBAPIError sqlstate \<Rightarrow>
                   if (case sqlstate of Some c \<Rightarrow> c \<in> ignore_sqlstates | None \<Rightarrow> False) then
                     (None, tr @ [Exec_sql stmt_to_exec,
                        Log (Warn_ignored_error fname idx (start_line st) sqlstate)])
                   else
                     (if fail_fast then Some (Database_error sqlstate) else None,
                      tr @ [Exec_sql stmt_to_exec,
                        Log (Error_ddl fname idx (start_line st) (take 2000 stmt_clean))])
               | Other_error \<Rightarrow>
                   (if fail_fast then Some Other_exception else None,
                    tr @ [Exec_sql stmt_to_exec,
                      Log (Error_ddl fname idx (start_line st) (take 2000 stmt_clean))])))"

definition run_sql_file ::
  "world \<Rightarrow> ustring \<Rightarrow> bool \<Rightarrow> ustring set \<Rightarrow> ustring \<Rightarrow> event list
     \<Rightarrow> load_error option \<times> event list" where
  "run_sql_file w dir fail_fast ignore_sqlstates fname tr =
     (case read_file w dir fname of
        None \<Rightarrow> (Some (FileNotFoundError_file dir fname), tr)
      | Some text_of_file \<Rightarrow>
          (case split_sql_statements (isalnum w) text_of_file of
             None \<Rightarrow> (Some Never_returns, tr)
           | Some statements \<Rightarrow>
               if statements = [] then (None, tr @ [Log (Info_empty_file fname)])
               else
                 (case for_each (run_statement w fname fail_fast ignore_sqlstates)
                         (zip [1..<Suc (length statements)] statements)
                         (tr @ [Log (Info_running fname), Begin]) of
                    (None, tr') \<Rightarrow> (None, tr' @ [Commit])
                  | (Some e, tr') \<Rightarrow> (Some e, tr' @ [Rollback]))))"

definition run_sql_files ::
  "world \<Rightarrow> ustring \<Rightarrow> ustring list \<Rightarrow> bool \<Rightarrow> ustring set \<Rightarrow> event list
     \<Rightarrow> load_error option \<times> event list" where
  "run_sql_files w dir ddl_files fail_fast ignore_sqlstates tr =
     (if \<not> dir_exists w dir then (Some (FileNotFoundError_dir dir), tr)
      else for_each (run_sql_file w dir fail_fast ignore_sqlstates) ddl_files tr)"

text \<open>
  \<^verbatim>\<open>sync_identity_sequences\<close>: nothing to do without the column or without a sequence;
  an insufficient privilege (SQLSTATE 42501) is let pass.
\<close>

definition sync_identity_sequences ::
  "world \<Rightarrow> ustring \<Rightarrow> ustring \<Rightarrow> ustring \<Rightarrow> event list \<Rightarrow> load_error option \<times> event list" where
  "sync_identity_sequences w schema table id_column tr =
     (let qualified = schema @ cps ''.'' @ table; tr1 = tr @ [Begin]
      in if \<not> id_column_exists w tr1 schema table id_column then (None, tr1 @ [Commit])
         else
           (case serial_sequence w tr1 qualified id_column of
              None \<Rightarrow> (None, tr1 @ [Commit])
            | Some seq \<Rightarrow>
                if seq = [] then (None, tr1 @ [Commit])
                else
                  (let v = max_id w tr1 schema table id_column
                   in case setval_outcome w tr1 seq v of
                        Done \<Rightarrow> (None, tr1 @ [Setval seq v, Commit])
                      | DBAPIError sqlstate \<Rightarrow>
                          if sqlstate = Some (cps ''42501'') then (None, tr1 @ [Setval seq v, Commit])
                          else (Some (Database_error sqlstate), tr1 @ [Setval seq v, Rollback])
                      | Other_error \<Rightarrow> (Some Other_exception, tr1 @ [Setval seq v, Rollback]))))"

text \<open>\<^verbatim>\<open>PostgresClient.write_dataframe\<close>, called with \<^verbatim>\<open>if_exists="append"\<close>.\<close>

definition write_dataframe ::
  "world \<Rightarrow> DataFrame \<Rightarrow> ustring \<Rightarrow> ustring \<Rightarrow> int \<Rightarrow> event list
     \<Rightarrow> load_error option \<times> event list" where
  "write_dataframe w df table_name schema chunksize tr =
     (if \<not> table_exists w tr schema table_name
      then (Some (RuntimeError_target_table schema table_name), tr)
      else
        (let df2 = strip_columns df
         in case to_sql_outcome w (tr @ [Begin]) schema table_name df2 of
              Done \<Rightarrow> (None, tr @ [Begin, To_sql schema table_name df2 chunksize, Commit])
            | r \<Rightarrow> (Some (raised r), tr @ [Begin, To_sql schema table_name df2 chunksize, Rollback])))"

section \<open>The load orchestrator (load/load.py)\<close>

text \<open>The keyword arguments of \<^verbatim>\<open>load\<close>, the result, and the local variables of the run.\<close>

datatype SchemaLoadMode = Drop_create | Truncate

record config =
  dsn :: "ustring option"
  sql_dir :: "ustring option"
  core_schema :: ustring
  ingest_schema :: ustring
  audit_schema :: ustring
  load_mode :: SchemaLoadMode
  pg_chunksize :: int
  ddl_only :: bool
  drop_extra_columns :: bool
  echo_sql :: bool
  analyze :: bool

record LoadResult =
  tables_loaded :: int
  rows_loaded :: int
  rows_by_table :: "(ustring \<times> int) list"

record load_state =
  trace :: "event list"
  loaded_tables :: "(ustring \<times> ustring) list"
  loaded_keys :: "ustring set"
  rows :: "(ustring \<times> int) list"

definition DEFAULT_PRE_DDL_FILES :: "ustring list" where
  "DEFAULT_PRE_DDL_FILES = [cps ''01_schema.sql'', cps ''02_tables.sql'', cps ''03_constraints.sql'']"

definition DEFAULT_POST_DDL_FILES :: "ustring list" where
  "DEFAULT_POST_DDL_FILES =
     [cps ''04_foreign_keys.sql'', cps ''05_indexes.sql'', cps ''06_comments.sql'',
      cps ''07_triggers.sql'']"

definition schema_for_table :: "config \<Rightarrow> ustring \<Rightarrow> ustring" where
  "schema_for_table cfg table =
     (if table = cps ''ingest_events'' \<or> table = cps ''entity_events'' then ingest_schema cfg
      else if table = cps ''audit_log'' then audit_schema cfg
      else core_schema cfg)"

text \<open>
  \<^verbatim>\<open>_load_one\<close>. \<open>dict_df\<close> is the mapping of keys to frames as the list of its items;
  a value that is not a DataFrame is \<open>None\<close>.
\<close>

definition load_one ::
  "world \<Rightarrow> config \<Rightarrow> (ustring \<times> DataFrame option) list \<Rightarrow> ustring \<Rightarrow> ustring \<Rightarrow> load_state
     \<Rightarrow> load_error option \<times> load_state" where
  "load_one w cfg dict_df table dkey st =
     (case map_of dict_df dkey of
        None \<Rightarrow> (None, st)
      | Some None \<Rightarrow> (Some (TypeError_not_dataframe dkey), st)
      | Some (Some df) \<Rightarrow>
          if empty_df df then (None, st)
          else
            (let schema = schema_for_table cfg table
             in if \<not> table_exists w (trace st) schema table
                then (None, st\<lparr>trace := trace st @ [Log (Warn_table_missing schema table dkey)]\<rparr>)
                else
                  (case validate_and_align_df (columns_meta w (trace st) schema table)
                          (normalize_nulls df) schema table (drop_extra_columns cfg) of
                     Inl e \<Rightarrow> (Some e, st)
                   | Inr (warnings, df2) \<Rightarrow>
                       (let tr1 = trace st @ map Log warnings
                              @ [Log (Info_loading schema table (n_rows df2) (length (series df2)))]
                        in case write_dataframe w df2 table schema (pg_chunksize cfg) tr1 of
                             (Some e, tr2) \<Rightarrow> (Some e, st\<lparr>trace := tr2\<rparr>)
                           | (None, tr2) \<Rightarrow>
                               (None, st\<lparr>trace := tr2,
                                  loaded_tables := loaded_tables st @ [(schema, table)],
                                  loaded_keys := insert dkey (loaded_keys st),
                                  rows := AList.update (schema @ cps ''.'' @ table)
                                            (int (n_rows df2)) (rows st)\<rparr>)))))"

text \<open>The body of the fallback loop over the keys of \<open>dict_df\<close>.\<close>

definition load_fallback ::
  "world \<Rightarrow> config \<Rightarrow> (ustring \<times> DataFrame option) list \<Rightarrow> ustring \<Rightarrow> load_state
     \<Rightarrow> load_error option \<times> load_state" where
  "load_fallback w cfg dict_df dkey st =
     (if dkey \<in> loaded_keys st then (None, st)
      else
        (let table = strip dkey
         in if table = [] then (None, st)
            else if DOT \<in> set table then
              (let sch = takeWhile (\<lambda>c. c \<noteq> DOT) table;
                   tbl = tl (dropWhile (\<lambda>c. c \<noteq> DOT) table)
               in if sch \<noteq> [] \<and> tbl \<noteq> [] \<and> table_exists w (trace st) sch tbl
                  then load_one w cfg dict_df tbl dkey st
                  else (None, st))
            else if table_exists w (trace st) (core_schema cfg) table
              then load_one w cfg dict_df table dkey st
              else (None, st)))"

text \<open>The body of the loop that syncs the sequences: a failure is logged and passed over.\<close>

definition sync_one :: "world \<Rightarrow> ustring \<times> ustring \<Rightarrow> event list \<Rightarrow> event list" where
  "sync_one w sc tr =
     (case sync_identity_sequences w (fst sc) (snd sc) (cps ''id'') tr of
        (None, tr') \<Rightarrow> tr'
      | (Some e, tr') \<Rightarrow> tr' @ [Log (Warn_no_sync (fst sc) (snd sc))])"

text \<open>The connection string: the argument, or the first environment variable that is set.\<close>

definition py_or :: "ustring option \<Rightarrow> ustring option \<Rightarrow> ustring option" where
  "py_or a b = (case a of Some d \<Rightarrow> if d \<noteq> [] then a else b | None \<Rightarrow> b)"

definition resolve_dsn :: "world \<Rightarrow> config \<Rightarrow> ustring option" where
  "resolve_dsn w cfg =
     (case dsn cfg of
        Some d \<Rightarrow> Some d
      | None \<Rightarrow>
          py_or (py_or (getenv w (cps ''SAVH_ETL_PG_DSN'')) (getenv w (cps ''DATABASE_URL'')))
            (getenv w (cps ''POSTGRES_DSN'')))"

text \<open>Step 1, the reset; the result is \<open>ddl_needed\<close>.\<close>

definition reset_db :: "world \<Rightarrow> config \<Rightarrow> event list \<Rightarrow> (load_error + bool) \<times> event list" where
  "reset_db w cfg tr0 =
     (let schemas = [core_schema cfg, ingest_schema cfg, audit_schema cfg]
      in case load_mode cfg of
           Drop_create \<Rightarrow>
             (case for_each (\<lambda>s tr. drop_schema w s (tr @ [Log (Info_drop_schema s)])) schemas tr0 of
                (Some e, tr) \<Rightarrow> (Inl e, tr)
              | (None, tr) \<Rightarrow> (Inr True, tr))
         | Truncate \<Rightarrow>
             (case for_each (create_schema w) schemas tr0 of
                (Some e, tr) \<Rightarrow> (Inl e, tr)
              | (None, tr) \<Rightarrow>
                  (case truncate_all_tables w schemas tr of
                     (Inl e, tr') \<Rightarrow> (Inl e, tr')
                   | (Inr truncated, tr') \<Rightarrow>
                       if truncated = 0 then (Inr True, tr' @ [Log Info_no_tables])
                       else (Inr False, tr' @ [Log (Info_truncate_ok truncated)]))))"

text \<open>Step 3, the load in the order of the plan, then the fallback over the other keys.\<close>

definition load_tables ::
  "world \<Rightarrow> config \<Rightarrow> (ustring \<times> DataFrame option) list \<Rightarrow> LoadPlan \<Rightarrow> event list
     \<Rightarrow> load_error option \<times> load_state" where
  "load_tables w cfg dict_df plan tr =
     (case for_each (\<lambda>s. load_one w cfg dict_df (name s) (key s)) (order plan)
             \<lparr>trace = tr, loaded_tables = [], loaded_keys = {}, rows = []\<rparr> of
        (Some e, st) \<Rightarrow> (Some e, st)
      | (None, st) \<Rightarrow> for_each (load_fallback w cfg dict_df) (map fst dict_df) st)"

text \<open>Steps 4 and 5 and the result.\<close>

definition finish_load ::
  "world \<Rightarrow> config \<Rightarrow> ustring \<Rightarrow> bool \<Rightarrow> load_state \<Rightarrow> (load_error + LoadResult) \<times> event list" where
  "finish_load w cfg sql_dir_path ddl_needed st =
     (let tr3 = fold (sync_one w) (loaded_tables st) (trace st)
      in case (if ddl_needed
               then run_sql_files w sql_dir_path DEFAULT_POST_DDL_FILES True {} tr3
               else (None, tr3)) of
           (Some e, tr4) \<Rightarrow> (Inl e, tr4)
         | (None, tr4) \<Rightarrow>
             (case (if analyze cfg then pg_exec w (cps ''ANALYZE;'') tr4 else (None, tr4)) of
                (Some e, tr5) \<Rightarrow> (Inl e, tr5)
              | (None, tr5) \<Rightarrow>
                  (Inr \<lparr>tables_loaded = int (length (rows st)),
                        rows_loaded = sum_list (map snd (rows st)),
                        rows_by_table = rows st\<rparr>,
                   tr5)))"

text \<open>\<^verbatim>\<open>build_savh_load_plan\<close> (load/load_strategy.py).\<close>

definition savh_specs :: "TableSpec list" where
  "savh_specs =
     [table_spec (cps ''app_users'') [],
      table_spec (cps ''productos'') [],
      table_spec (cps ''codigos'') [],
      table_spec (cps ''dim_convenciones'') [],
      table_spec (cps ''dim_variedades'') [cps ''productos''],
      table_spec (cps ''dim_categorias'') [cps ''productos''],
      table_spec (cps ''dim_calibres'') [cps ''productos'', cps ''dim_convenciones''],
      table_spec (cps ''dim_medios_pago'') [],
      table_spec (cps ''dim_grupos_egresos'') [],
      (table_spec (cps ''dim_tipos_egreso'') [cps ''dim_grupos_egresos''])
        \<lparr>df_key := Some (cps ''dim_tipos_egresos'')\<rparr>,
      table_spec (cps ''dim_modelos_comerciales'') [],
      table_spec (cps ''dim_tipos_economicos'') [],
      table_spec (cps ''dim_estados_despacho'') [],
      table_spec (cps ''dim_estados_venta'') [],
      table_spec (cps ''dim_estados_venta_facturacion'') [],
      table_spec (cps ''dim_estados_venta_pago'') [],
      table_spec (cps ''dim_estados_compra'') [],
      table_spec (cps ''dim_tipos_clientes'') [],
      table_spec (cps ''dim_estados_pedido'') [],
      table_spec (cps ''dim_tipos_venta'') [],
      table_spec (cps ''dim_entity_type'') [],
      table_spec (cps ''dim_event_type'') [],
      table_spec (cps ''terceros'') [],
      table_spec (cps ''terceros_vendedor'') [cps ''terceros'', cps ''dim_modelos_comerciales''],
      table_spec (cps ''terceros_cliente'')
        [cps ''terceros'', cps ''dim_tipos_clientes'', cps ''terceros_vendedor''],
      table_spec (cps ''terceros_proveedor'') [cps ''terceros''],
      table_spec (cps ''destinatarios'') [cps ''terceros_cliente''],
      table_spec (cps ''trabajadores'') [],
      table_spec (cps ''vehiculos'') [],
      table_spec (cps ''pedidos'')
        [cps ''terceros_cliente'', cps ''destinatarios'', cps ''dim_estados_pedido'',
         cps ''app_users''],
      table_spec (cps ''pedidos_items'')
        [cps ''pedidos'', cps ''productos'', cps ''dim_variedades'', cps ''dim_categorias'',
         cps ''dim_calibres'', cps ''codigos'', cps ''app_users''],
      table_spec (cps ''entregas'') [cps ''pedidos'', cps ''app_users''],
      table_spec (cps ''ventas'')
        [cps ''pedidos'', cps ''terceros_cliente'', cps ''destinatarios'', cps ''dim_tipos_venta'',
         cps ''dim_estados_venta'', cps ''dim_estados_despacho'',
         cps ''dim_estados_venta_facturacion'', cps ''dim_estados_venta_pago'', cps ''app_users''],
      table_spec (cps ''ventas_items'')
        [cps ''ventas'', cps ''productos'', cps ''dim_variedades'', cps ''dim_categorias'',
         cps ''dim_calibres'', cps ''codigos'', cps ''app_users''],
      table_spec (cps ''pagos'') [cps ''terceros_cliente'', cps ''dim_medios_pago'', cps ''app_users''],
      table_spec (cps ''aplicaciones_pago'') [cps ''pagos'', cps ''ventas'', cps ''app_users''],
      table_spec (cps ''compras_producto'')
        [cps ''codigos'', cps ''terceros_proveedor'', cps ''dim_estados_compra'', cps ''app_users''],
      table_spec (cps ''compras_producto_items'')
        [cps ''compras_producto'', cps ''productos'', cps ''dim_variedades'',
         cps ''dim_categorias'', cps ''dim_calibres'', cps ''app_users''],
      table_spec (cps ''ingresos_producto'') [cps ''app_users''],
      table_spec (cps ''ingresos_producto_items'')
        [cps ''ingresos_producto'', cps ''codigos'', cps ''productos'', cps ''dim_variedades'',
         cps ''dim_categorias'', cps ''dim_calibres'', cps ''app_users''],
      table_spec (cps ''mermas'')
        [cps ''codigos'', cps ''productos'', cps ''dim_variedades'', cps ''dim_categorias'',
         cps ''dim_calibres'', cps ''app_users''],
      table_spec (cps ''egresos'')
        [cps ''dim_tipos_egreso'', cps ''dim_tipos_economicos'', cps ''dim_medios_pago'',
         cps ''vehiculos'', cps ''trabajadores'', cps ''terceros_vendedor'',
         cps ''terceros_cliente'', cps ''terceros_proveedor'', cps ''app_users''],
      table_spec (cps ''pagos_compra'') [cps ''compras_producto'', cps ''egresos'', cps ''app_users''],
      table_spec (cps ''ingest_events'') [],
      table_spec (cps ''entity_events'')
        [cps ''ingest_events'', cps ''dim_entity_type'', cps ''dim_event_type'', cps ''app_users''],
      table_spec (cps ''audit_log'') [cps ''ingest_events'', cps ''app_users'']]"

definition build_savh_load_plan :: "LoadPlanError + LoadPlan" where
  "build_savh_load_plan = new_LoadPlan savh_specs"

text \<open>\<^verbatim>\<open>load\<close>: the result or the exception, and the effects of the run.\<close>

definition load ::
  "world \<Rightarrow> (ustring \<times> DataFrame option) list \<Rightarrow> config
     \<Rightarrow> (load_error + LoadResult) \<times> event list" where
  "load w dict_df cfg =
     (case resolve_dsn w cfg of
        None \<Rightarrow> (Inl ValueError_dsn, [])
      | Some d \<Rightarrow>
          if d = [] then (Inl ValueError_dsn, [])
          else
            (let sql_dir_path = (case sql_dir cfg of Some p \<Rightarrow> p | None \<Rightarrow> default_sql_dir w)
             in case reset_db w cfg (if echo_sql cfg then [Echo_on] else []) of
                  (Inl e, tr) \<Rightarrow> (Inl e, tr)
                | (Inr ddl_needed, tr) \<Rightarrow>
                    (case (if ddl_needed
                           then run_sql_files w sql_dir_path DEFAULT_PRE_DDL_FILES True {} tr
                           else (None, tr)) of
                       (Some e, tr1) \<Rightarrow> (Inl e, tr1)
                     | (None, tr1) \<Rightarrow>
                         if ddl_only cfg then
                           (Inr \<lparr>tables_loaded = 0, rows_loaded = 0, rows_by_table = []\<rparr>,
                            tr1 @ [Log Info_ddl_only])
                         else
                           (case build_savh_load_plan of
                              Inl e \<Rightarrow> (Inl (Plan_error e), tr1)
                            | Inr plan \<Rightarrow>
                                (case load_tables w cfg dict_df plan tr1 of
                                   (Some e, st) \<Rightarrow> (Inl e, trace st)
                                 | (None, st) \<Rightarrow> finish_load w cfg sql_dir_path ddl_needed st)))))"

section \<open>The script runner on one connection (load/ddl.py, \<^verbatim>\<open>DDLRunner._run_file\<close>)\<close>

text \<open>
  What the runner sends through the cursor: \<^verbatim>\<open>SAVEPOINT sp_n;\<close>,
  \<^verbatim>\<open>RELEASE SAVEPOINT sp_n;\<close>, \<^verbatim>\<open>ROLLBACK TO SAVEPOINT sp_n;\<close>, or a statement of the
  file.
\<close>

datatype command =
  SAVEPOINT nat
  | RELEASE_SAVEPOINT nat
  | ROLLBACK_TO_SAVEPOINT nat
  | Statement ustring

text \<open>
  The connection with its open transaction, and the log. A statement's effect is its
  text: \<open>committed\<close> holds the statements whose effects are committed, \<open>pending\<close> those of
  the open transaction, \<open>savepoints\<close> the open savepoints, the innermost first, each
  with the pending statements at its creation. \<open>failed\<close> is PostgreSQL's state of a
  transaction after an error, in which it refuses every command but a rollback.
\<close>

record session =
  committed :: "ustring list"
  pending :: "ustring list"
  savepoints :: "(nat \<times> ustring list) list"
  failed :: bool
  autocommit :: bool
  logged :: "log_msg list"

text \<open>
  \<^verbatim>\<open>cur.execute\<close>. Whether a statement fails is given by \<open>fails\<close>, from the statements
  in effect and the statement.
\<close>

definition execute ::
  "(ustring list \<Rightarrow> ustring \<Rightarrow> bool) \<Rightarrow> command \<Rightarrow> session \<Rightarrow> load_error option \<times> session" where
  "execute fails cmd c =
     (if failed c \<and> (case cmd of ROLLBACK_TO_SAVEPOINT _ \<Rightarrow> False | _ \<Rightarrow> True)
      then (Some (Database_error (Some (cps ''25P02''))), c)
      else
        (case cmd of
           Statement s \<Rightarrow>
             if fails (committed c @ pending c) s
             then (Some (Database_error None), c\<lparr>failed := \<not> autocommit c\<rparr>)
             else if autocommit c then (None, c\<lparr>committed := committed c @ [s]\<rparr>)
             else (None, c\<lparr>pending := pending c @ [s]\<rparr>)
         | SAVEPOINT n \<Rightarrow>
             if autocommit c then (Some (Database_error (Some (cps ''25P01''))), c)
             else (None, c\<lparr>savepoints := (n, pending c) # savepoints c\<rparr>)
         | RELEASE_SAVEPOINT n \<Rightarrow>
             (case dropWhile (\<lambda>p. fst p \<noteq> n) (savepoints c) of
                [] \<Rightarrow> (Some (Database_error (Some (cps ''3B001''))), c\<lparr>failed := \<not> autocommit c\<rparr>)
              | p # outer \<Rightarrow> (None, c\<lparr>savepoints := outer\<rparr>))
         | ROLLBACK_TO_SAVEPOINT n \<Rightarrow>
             (case dropWhile (\<lambda>p. fst p \<noteq> n) (savepoints c) of
                [] \<Rightarrow> (Some (Database_error (Some (cps ''3B001''))), c\<lparr>failed := \<not> autocommit c\<rparr>)
              | p # outer \<Rightarrow>
                  (None, c\<lparr>pending := snd p, savepoints := p # outer, failed := False\<rparr>))))"

text \<open>\<^verbatim>\<open>conn.commit()\<close>; the commit of a failed transaction rolls it back.\<close>

definition commit :: "session \<Rightarrow> session" where
  "commit c =
     c\<lparr>committed := (if failed c then committed c else committed c @ pending c),
       pending := [], savepoints := [], failed := False\<rparr>"

definition log_to :: "log_msg \<Rightarrow> session \<Rightarrow> session" where
  "log_to m c = c\<lparr>logged := logged c @ [m]\<rparr>"

text \<open>
  The body of the loop of \<^verbatim>\<open>_run_file\<close> over the statements: \<open>error\<close> is the outer
  \<^verbatim>\<open>except\<close> clause, which logs and raises again, \<open>handler\<close> the inner one, which rolls
  back to the savepoint, logs and goes on.
\<close>

definition run_one ::
  "(ustring list \<Rightarrow> ustring \<Rightarrow> bool) \<Rightarrow> bool \<Rightarrow> bool \<Rightarrow> ustring \<Rightarrow> nat \<times> SQLStmt \<Rightarrow> session
     \<Rightarrow> load_error option \<times> session" where
  "run_one fails fail_fast is_autocommit fname ist c =
     (let idx = fst ist; st = snd ist; stmt_clean = strip (sql st);
          error = (\<lambda>e c'. (Some e,
                     log_to (Error_ddl fname idx (start_line st) (take 2000 stmt_clean)) c'));
          handler = (\<lambda>c'.
            case execute fails (ROLLBACK_TO_SAVEPOINT idx) c' of
              (Some e, c1) \<Rightarrow> error e c1
            | (None, c1) \<Rightarrow>
                (case execute fails (RELEASE_SAVEPOINT idx) c1 of
                   (Some e, c2) \<Rightarrow> error e c2
                 | (None, c2) \<Rightarrow>
                     (None, log_to (Exception_continuing fname idx (start_line st)) c2)))
      in if stmt_clean = [] then (None, c)
         else if startswith stmt_clean [BACKSLASH] then
           (None, log_to (Warn_meta_command fname idx (start_line st) (take 120 stmt_clean)) c)
         else if \<not> fail_fast \<and> \<not> is_autocommit then
           (case execute fails (SAVEPOINT idx) c of
              (Some e, c1) \<Rightarrow> error e c1
            | (None, c1) \<Rightarrow>
                (case execute fails (Statement (escape_percent stmt_clean)) c1 of
                   (Some e, c2) \<Rightarrow> handler c2
                 | (None, c2) \<Rightarrow>
                     (case execute fails (RELEASE_SAVEPOINT idx) c2 of
                        (Some e, c3) \<Rightarrow> handler c3
                      | (None, c3) \<Rightarrow> (None, c3))))
         else
           (case execute fails (Statement (escape_percent stmt_clean)) c of
              (Some e, c1) \<Rightarrow> error e c1
            | (None, c1) \<Rightarrow> (None, c1)))"

text \<open>\<^verbatim>\<open>_run_file\<close> from the list of statements on, and from the text of the file.\<close>

definition run_statements ::
  "(ustring list \<Rightarrow> ustring \<Rightarrow> bool) \<Rightarrow> bool \<Rightarrow> ustring \<Rightarrow> SQLStmt list \<Rightarrow> session
     \<Rightarrow> load_error option \<times> session" where
  "run_statements fails fail_fast fname statements c =
     (if statements = [] then (None, log_to (Info_empty_file fname) c)
      else
        (let is_autocommit = autocommit c
         in case for_each (run_one fails fail_fast is_autocommit fname)
                   (zip [1..<Suc (length statements)] statements) c of
              (Some e, c') \<Rightarrow> (Some e, c')
            | (None, c') \<Rightarrow> (None, if \<not> is_autocommit then commit c' else c')))"

definition run_file ::
  "(nat \<Rightarrow> bool) \<Rightarrow> (ustring list \<Rightarrow> ustring \<Rightarrow> bool) \<Rightarrow> bool \<Rightarrow> ustring \<Rightarrow> ustring \<Rightarrow> session
     \<Rightarrow> load_error option \<times> session" where
  "run_file alnum fails fail_fast fname file_text c =
     (case split_sql_statements alnum file_text of
        None \<Rightarrow> (Some Never_returns, c)
      | Some statements \<Rightarrow> run_statements fails fail_fast fname statements c)"

text \<open>
  What the continue-on-error policy is to achieve: every statement that can run is run
  on the effects of those that ran before it, a statement that fails leaves no trace but
  its log entry.
\<close>

fun expect ::
  "(ustring list \<Rightarrow> ustring \<Rightarrow> bool) \<Rightarrow> ustring \<Rightarrow> ustring list \<Rightarrow> (nat \<times> SQLStmt) list
     \<Rightarrow> ustring list \<times> log_msg list" where
  "expect fails fname vis [] = ([], [])"
| "expect fails fname vis ((idx, st) # more_sts) =
     (let s = strip (sql st)
      in if s = [] then expect fails fname vis more_sts
         else if startswith s [BACKSLASH] then
           (fst (expect fails fname vis more_sts),
            Warn_meta_command fname idx (start_line st) (take 120 s)
              # snd (expect fails fname vis more_sts))
         else if fails vis (escape_percent s) then
           (fst (expect fails fname vis more_sts),
            Exception_continuing fname idx (start_line st) # snd (expect fails fname vis more_sts))
         else
           (escape_percent s # fst (expect fails fname (vis @ [escape_percent s]) more_sts),
            snd (expect fails fname (vis @ [escape_percent s]) more_sts)))"


section \<open>Concrete inputs\<close>

text \<open>The statements sent to the database in a run, in order.\<close>

definition executed :: "event list \<Rightarrow> ustring list" where
  "executed tr = concat (map (\<lambda>e. case e of Exec_sql q \<Rightarrow> [q] | _ \<Rightarrow> []) tr)"

text \<open>
  A script directory with the seven scripts, one statement each; a database that accepts
  every statement and has no table; the default arguments of \<^verbatim>\<open>load\<close>.
\<close>

definition files0 :: "(ustring \<times> ustring) list" where
  "files0 =
     [(cps ''01_schema.sql'', cps ''CREATE SCHEMA core;''),
      (cps ''02_tables.sql'', cps ''CREATE TABLE t (a int);''),
      (cps ''03_constraints.sql'', cps ''ALTER TABLE t ADD CHECK (a > 0);''),
      (cps ''04_foreign_keys.sql'', cps ''ALTER TABLE t ADD FOREIGN KEY (a) REFERENCES u;''),
      (cps ''05_indexes.sql'', cps ''CREATE INDEX i ON t (a);''),
      (cps ''06_comments.sql'', cps ''COMMENT ON TABLE t IS NULL;''),
      (cps ''07_triggers.sql'', cps ''CREATE TRIGGER g AFTER INSERT ON t EXECUTE FUNCTION f();'')]"

definition world0 :: world where
  "world0 =
     \<lparr>getenv = (\<lambda>v. None), default_sql_dir = cps ''sql'', dir_exists = (\<lambda>d. True),
      read_file = (\<lambda>d f. map_of files0 f), isalnum = ascii_alnum, paramstyle = Some (cps ''pyformat''),
      exec_outcome = (\<lambda>tr q. Done), to_sql_outcome = (\<lambda>tr s t df. Done),
      table_exists = (\<lambda>tr s t. False), base_tables = (\<lambda>tr s. []),
      columns_meta = (\<lambda>tr s t. []), id_column_exists = (\<lambda>tr s t c. False),
      serial_sequence = (\<lambda>tr t c. None), max_id = (\<lambda>tr s t c. None),
      setval_outcome = (\<lambda>tr s v. Done)\<rparr>"

definition config0 :: config where
  "config0 =
     \<lparr>dsn = Some (cps ''postgresql://localhost/savh''), sql_dir = None, core_schema = cps ''core'',
      ingest_schema = cps ''ingest'', audit_schema = cps ''audit'', load_mode = Drop_create,
      pg_chunksize = 5000, ddl_only = False, drop_extra_columns = True, echo_sql = False,
      analyze = False\<rparr>"


text \<open>
  A database that holds the table \<^verbatim>\<open>core.notes\<close> with a generated \<^verbatim>\<open>id\<close>, a required
  \<^verbatim>\<open>title\<close> and an optional \<^verbatim>\<open>body\<close>; frames of two rows with the given columns; the
  arguments of \<^verbatim>\<open>load\<close> for a load into the existing tables.
\<close>

definition notes_meta :: "ColumnMeta list" where
  "notes_meta =
     [\<lparr>column_name = cps ''id'', is_nullable = False, has_default = False, is_identity = True\<rparr>,
      \<lparr>column_name = cps ''title'', is_nullable = False, has_default = False, is_identity = False\<rparr>,
      \<lparr>column_name = cps ''body'', is_nullable = True, has_default = False, is_identity = False\<rparr>]"

definition world1 :: world where
  "world1 =
     world0\<lparr>table_exists := (\<lambda>tr s t. s = cps ''core'' \<and> t = cps ''notes''),
            base_tables := (\<lambda>tr s. if s = cps ''core'' then [(cps ''core'', cps ''notes'')] else []),
            columns_meta := (\<lambda>tr s t. if s = cps ''core'' \<and> t = cps ''notes'' then notes_meta else [])\<rparr>"

definition frame :: "ustring list \<Rightarrow> DataFrame" where
  "frame labels = \<lparr>series = map (\<lambda>l. (l, Object, [Val (cps ''u''), NaN])) labels, n_rows = 2\<rparr>"

definition config1 :: config where
  "config1 = config0\<lparr>load_mode := Truncate\<rparr>"

definition state0 :: load_state where
  "state0 = \<lparr>trace = [], loaded_tables = [], loaded_keys = {}, rows = []\<rparr>"

text \<open>A connection with nothing pending; a database in which a statement fails when it
  was run before (as a second \<^verbatim>\<open>CREATE TABLE\<close> of the same table does).\<close>

definition session0 :: session where
  "session0 = \<lparr>committed = [], pending = [], savepoints = [], failed = False, autocommit = False,
      logged = []\<rparr>"

definition already_there :: "ustring list \<Rightarrow> ustring \<Rightarrow> bool" where
  "already_there vis s \<longleftrightarrow> s \<in> set vis"


text \<open>Every spec depends only on names seen earlier in the list.\<close>

fun deps_earlier :: "ustring list \<Rightarrow> TableSpec list \<Rightarrow> bool" where
  "deps_earlier seen [] = True"
| "deps_earlier seen (s # ss) = (set (depends_on s) \<subseteq> set seen \<and> deps_earlier (seen @ [name s]) ss)"


section \<open>Properties of the statement splitter\<close>

subsection \<open>The scanner returns on every input\<close>

lemma enter_fields [simp]:
  "rest (enter ch st) = rest st" "dollar_tag (enter ch st) = dollar_tag st"
  "in_sq (enter ch st) = in_sq st" "in_dq (enter ch st) = in_dq st"
  "in_line_comment (enter ch st) = in_line_comment st"
  "in_block_comment (enter ch st) = in_block_comment st"
  "buf (enter ch st) = buf st" "out (enter ch st) = out st"
  by (simp_all add: enter_def Let_def)

lemma flush_fields [simp]:
  "rest (flush st) = rest st" "dollar_tag (flush st) = dollar_tag st"
  "in_sq (flush st) = in_sq st" "in_dq (flush st) = in_dq st"
  "in_line_comment (flush st) = in_line_comment st"
  "in_block_comment (flush st) = in_block_comment st"
  "line (flush st) = line st" "buf (flush st) = []" "started (flush st) = False"
  by (simp_all add: flush_def Let_def)

lemma tag_after_length: "length (tag_after alnum cs) \<le> length cs"
  by (simp add: tag_after_def length_dropWhile_le)

lemma step_code_shorter: "length (rest (step_code alnum ch cs st)) \<le> length cs"
  using tag_after_length [of alnum cs]
  by (auto simp: step_code_def Let_def split: list.splits)

lemma step_code_tag_ok: "tag_ok st \<Longrightarrow> tag_ok (step_code alnum ch cs st)"
  by (auto simp: step_code_def tag_ok_def Let_def split: list.splits)

lemma step_shorter:
  assumes "tag_ok st" "rest st \<noteq> []"
  shows "length (rest (step alnum st)) < length (rest st)"
proof -
  obtain ch cs where r: "rest st = ch # cs"
    using assms(2) by (cases "rest st") auto
  have "length (rest (step_code alnum ch cs (enter ch st))) \<le> length cs"
    by (rule step_code_shorter)
  moreover have "\<And>t. dollar_tag st = Some t \<Longrightarrow> Suc 0 \<le> length t"
    using assms(1) by (auto simp: tag_ok_def Suc_le_eq)
  ultimately show ?thesis
    using r by (auto simp: step_def Let_def split: list.splits option.splits)
qed

lemma step_tag_ok: "tag_ok st \<Longrightarrow> tag_ok (step alnum st)"
  using step_code_tag_ok [of "enter ch st" for ch]
  by (auto simp: step_def Let_def tag_ok_def split: list.splits option.splits)

lemma scan_total: "tag_ok st \<Longrightarrow> \<exists>st'. scan alnum st = Some st' \<and> rest st' = []"
proof (induction "length (rest st)" arbitrary: st rule: less_induct)
  case less
  show ?case
  proof (cases "rest st = []")
    case True
    then show ?thesis by (simp add: scan.simps)
  next
    case False
    have "\<exists>st'. scan alnum (step alnum st) = Some st' \<and> rest st' = []"
      using less.hyps [OF step_shorter [OF less.prems False] step_tag_ok [OF less.prems]] .
    then show ?thesis
      using False by (subst scan.simps) simp
  qed
qed

lemma split_sql_statements_total: "\<exists>r. split_sql_statements alnum s = Some r"
  using scan_total [of "init_state (filter (\<lambda>c. c \<noteq> BOM) s)" alnum]
  by (auto simp: split_sql_statements_def tag_ok_def init_state_def)

subsection \<open>Evaluation and white space\<close>

lemmas scan_eval = scan.simps step_def enter_def step_code_def flush_def tag_after_def
  tag_body_def startswith_def Let_def

lemmas strip_eval = strip_def strip_where_def strip_chars_def isspace_def

lemma strip_where_Cons: "p x \<Longrightarrow> strip_where p (x # s) = strip_where p s"
  by (simp add: strip_where_def)

lemma strip_where_replicate: "p x \<Longrightarrow> strip_where p (replicate m x @ s) = strip_where p s"
  by (induction m) (simp_all add: strip_where_Cons)

lemma strip_newlines: "strip (replicate m NL @ s) = strip s"
  by (simp add: strip_def strip_where_replicate isspace_def)

lemma filter_bom_newlines: "filter (\<lambda>c. c \<noteq> BOM) (replicate k NL) = replicate k NL"
  by (induction k) simp_all

lemma step_newline:
  assumes "normal st" "started st" "rest st = NL # r"
  shows "step alnum st = st\<lparr>buf := buf st @ [NL], line := line st + 1, rest := r\<rparr>"
  using assms by (simp add: step_def enter_def step_code_def normal_def Let_def)

lemma scan_newlines:
  "normal st \<Longrightarrow> started st \<Longrightarrow> rest st = replicate m NL @ r \<Longrightarrow>
   scan alnum st =
   scan alnum (st\<lparr>buf := buf st @ replicate m NL, line := line st + int m, rest := r\<rparr>)"
proof (induction m arbitrary: st)
  case 0
  then have "st\<lparr>rest := r\<rparr> = st" by auto
  then show ?case by simp
next
  case (Suc m)
  let ?st1 = "st\<lparr>buf := buf st @ [NL], line := line st + 1, rest := replicate m NL @ r\<rparr>"
  have r: "rest st = NL # (replicate m NL @ r)"
    using Suc.prems(3) by simp
  have s: "step alnum st = ?st1"
    using step_newline [OF Suc.prems(1,2) r] .
  have "scan alnum st = scan alnum ?st1"
    using r s by (subst scan.simps) simp
  also have "\<dots> = scan alnum
      (?st1\<lparr>buf := buf ?st1 @ replicate m NL, line := line ?st1 + int m, rest := r\<rparr>)"
    using Suc.prems(1,2) by (intro Suc.IH) (simp_all add: normal_def)
  also have "?st1\<lparr>buf := buf ?st1 @ replicate m NL, line := line ?st1 + int m, rest := r\<rparr>
      = st\<lparr>buf := buf st @ replicate (Suc m) NL, line := line st + int (Suc m), rest := r\<rparr>"
    by simp
  finally show ?case .
qed

subsection \<open>C1: an input that is only a comment\<close>

text \<open>
  C1 says that the splitter returns no statement for an input that holds only a line
  comment. The scanner copies the characters of a comment into the buffer, and \<open>flush\<close>
  only trims white space and looks for a character other than \<^verbatim>\<open>;\<close>, so the text
  \<^verbatim>\<open>-- only a comment\<close> followed by a newline yields one statement: the comment
  itself, starting on line 1.
\<close>

theorem split_comment_only:
  "split_sql_statements ascii_alnum (cps ''-- only a comment'' @ [NL]) =
     Some [\<lparr>sql = cps ''-- only a comment'', start_line = 1\<rparr>]"
  by (simp add: split_sql_statements_def cps_def init_state_def scan_eval strip_eval)

subsection \<open>C2: semicolons inside quotes, comments and dollar-quoted blocks\<close>

text \<open>
  In every state inside a quote, a comment or a dollar-quoted block, an iteration on
  \<^verbatim>\<open>;\<close> emits nothing: the semicolon is appended to the buffer and the scanner stays in
  the state it was in.
\<close>

lemma step_protected_semicolon:
  assumes "rest st = SEMI # cs" and "protected st"
  shows "out (step alnum st) = out st \<and> buf (step alnum st) = buf st @ [SEMI]
     \<and> rest (step alnum st) = cs
     \<and> in_sq (step alnum st) = in_sq st \<and> in_dq (step alnum st) = in_dq st
     \<and> in_line_comment (step alnum st) = in_line_comment st
     \<and> in_block_comment (step alnum st) = in_block_comment st
     \<and> dollar_tag (step alnum st) = dollar_tag st"
  using assms
  by (auto simp: step_def step_code_def protected_def Let_def split: list.splits option.splits)

text \<open>
  The scan of a text: the characters that the scanner only copies, then a whole quote,
  comment or dollar-quoted block from its opening mark in the text to its closing mark.
\<close>

lemma absorb_char_fields [simp]:
  "rest (absorb_char c st) = rest st" "dollar_tag (absorb_char c st) = dollar_tag st"
  "in_sq (absorb_char c st) = in_sq st" "in_dq (absorb_char c st) = in_dq st"
  "in_line_comment (absorb_char c st) = in_line_comment st"
  "in_block_comment (absorb_char c st) = in_block_comment st"
  "buf (absorb_char c st) = buf st @ [c]" "out (absorb_char c st) = out st"
  by (simp_all add: absorb_char_def)



lemma absorb_fields [simp]:
  "rest (absorb b st) = rest st" "dollar_tag (absorb b st) = dollar_tag st"
  "in_sq (absorb b st) = in_sq st" "in_dq (absorb b st) = in_dq st"
  "in_line_comment (absorb b st) = in_line_comment st"
  "in_block_comment (absorb b st) = in_block_comment st"
  "buf (absorb b st) = buf st @ b" "out (absorb b st) = out st"
  by (induction b arbitrary: st) simp_all









































subsection \<open>C3: two statements and their starting lines\<close>

text \<open>
  C3 says that each statement carries the line on which its text begins, so that after
  \<open>k\<close> blank lines the first statement reports line \<open>k + 1\<close>. The scanner marks the
  start at the first character it buffers, white space included, after counting that
  character if it is a newline. With two leading newlines the first statement's text
  begins on line 3, and the scanner reports line 2.
\<close>

theorem split_two_blank_lines_counterexample:
  "split_sql_statements ascii_alnum ([NL, NL] @ cps ''SELECT 1; SELECT 2;'') =
     Some [\<lparr>sql = cps ''SELECT 1;'', start_line = 2\<rparr>,
           \<lparr>sql = cps ''SELECT 2;'', start_line = 3\<rparr>]"
  by (simp add: split_sql_statements_def cps_def init_state_def scan_eval strip_eval)

text \<open>
  C3 as amended: splitting \<^verbatim>\<open>SELECT 1; SELECT 2;\<close> after \<open>k\<close> newlines yields exactly
  two statements, \<^verbatim>\<open>SELECT 1;\<close> and \<^verbatim>\<open>SELECT 2;\<close>. Each carries the line at which its
  buffering started: the first statement reports line 1 when \<open>k = 0\<close> and line 2
  otherwise, the second reports line \<open>k + 1\<close>.
\<close>

theorem split_leading_newlines:
  "split_sql_statements alnum (replicate k NL @ cps ''SELECT 1; SELECT 2;'') =
     Some [\<lparr>sql = cps ''SELECT 1;'', start_line = (if k = 0 then 1 else 2)\<rparr>,
           \<lparr>sql = cps ''SELECT 2;'', start_line = int k + 1\<rparr>]"
proof (cases k)
  case 0
  then show ?thesis
    by (simp add: split_sql_statements_def cps_def init_state_def scan_eval strip_eval)
next
  case (Suc m)
  let ?S = "cps ''SELECT 1; SELECT 2;''"
  let ?s0 = "init_state (replicate (Suc m) NL @ ?S)"
  let ?s1 = "\<lparr>out = [], buf = [NL], in_sq = False, in_dq = False, in_line_comment = False,
      in_block_comment = False, dollar_tag = None, line = 2, stmt_start_line = 2,
      started = True, rest = replicate m NL @ ?S\<rparr>"
  let ?s2 = "\<lparr>out = [], buf = replicate (Suc m) NL, in_sq = False, in_dq = False,
      in_line_comment = False, in_block_comment = False, dollar_tag = None,
      line = 2 + int m, stmt_start_line = 2, started = True, rest = ?S\<rparr>"
  have f: "filter (\<lambda>c. c \<noteq> BOM) (replicate k NL @ ?S) = replicate (Suc m) NL @ ?S"
    using filter_bom_newlines [of k] Suc by (simp add: cps_def)
  have a: "scan alnum ?s0 = scan alnum ?s1"
    by (subst scan.simps) (simp add: init_state_def step_def enter_def step_code_def Let_def)
  have b: "scan alnum ?s1 = scan alnum ?s2"
    using scan_newlines [of ?s1 m ?S alnum] by (simp add: normal_def replicate_append_same)
  have st1: "strip (replicate (Suc m) NL @ cps ''SELECT 1;'') = cps ''SELECT 1;''"
    unfolding strip_newlines by (simp add: cps_def strip_eval)
  have c: "map_option (\<lambda>st. out (flush st)) (scan alnum ?s2) =
     Some [\<lparr>sql = cps ''SELECT 1;'', start_line = 2\<rparr>,
           \<lparr>sql = cps ''SELECT 2;'', start_line = int m + 2\<rparr>]"
    using st1
    by (simp add: cps_def scan_eval
        strip_def [of "[32, 83, 69, 76, 69, 67, 84, 32, 50, 59]"]
        strip_def [of "[83, 69, 76, 69, 67, 84, 32, 49, 59]"]
        strip_def [of "[83, 69, 76, 69, 67, 84, 32, 50, 59]"]
        strip_def [of "[]"]
        strip_where_def strip_chars_def isspace_def)
  show ?thesis
    unfolding split_sql_statements_def f a b c using Suc by simp
qed

theorem split_leading_newlines_witness:
  "split_sql_statements ascii_alnum (replicate 4 NL @ cps ''SELECT 1; SELECT 2;'') =
     Some [\<lparr>sql = cps ''SELECT 1;'', start_line = 2\<rparr>,
           \<lparr>sql = cps ''SELECT 2;'', start_line = 5\<rparr>]"
  using split_leading_newlines [of ascii_alnum 4] by simp

section \<open>Properties of the load plan\<close>

lemma relax_fst: "fst (relax n inc ready) = map (\<lambda>(m, deps). (m, deps - {n})) inc"
  by (induction inc arbitrary: ready) (auto simp: Let_def)

lemma relax_snd:
  "snd (relax n inc ready) =
     ready @ map fst (filter (\<lambda>(m, deps). n \<in> deps \<and> deps - {n} = {}) inc)"
proof (induction inc arbitrary: ready)
  case Nil
  then show ?case by simp
next
  case (Cons a inc)
  obtain m deps where a: "a = (m, deps)" by (cases a)
  consider "n \<notin> deps" | "n \<in> deps" "deps - {n} = {}" | "n \<in> deps" "deps - {n} \<noteq> {}"
    by blast
  then show ?case
  proof cases
    case 1
    then show ?thesis using Cons.IH [of ready] a by (simp add: Let_def)
  next
    case 2
    then show ?thesis using Cons.IH [of "ready @ [m]"] a by (simp add: Let_def)
  next
    case 3
    then show ?thesis using Cons.IH [of ready] a by (simp add: Let_def)
  qed
qed

lemma map_of_filter_keys:
  assumes "distinct (map fst xs)"
  shows "set (map fst (filter P xs)) = {m. \<exists>v. map_of xs m = Some v \<and> P (m, v)}"
  using assms by (induction xs) (auto simp: rev_image_eqI split: if_splits)

lemma kahn_inv_step:
  assumes inv: "kahn_inv bn inc0 inc ready ord"
    and d0: "distinct (map fst inc0)"
    and ne: "ready \<noteq> []"
    and s: "map_of bn (last ready) = Some s" "name s = last ready"
  shows "kahn_inv bn inc0 (fst (relax (last ready) inc (butlast ready)))
           (snd (relax (last ready) inc (butlast ready))) (ord @ [s])"
proof -
  let ?n = "last ready"
  let ?N = "name ` set ord"
  let ?new = "map fst (filter (\<lambda>(m, deps). ?n \<in> deps \<and> deps - {?n} = {}) inc)"
  have inc: "inc = map (\<lambda>(m, deps). (m, deps - ?N)) inc0"
    and dr: "distinct ready" and dord: "distinct (map name ord)"
    and disj: "set ready \<inter> ?N = {}"
    and cov: "set ready \<union> ?N = {m. \<exists>deps. map_of inc0 m = Some deps \<and> deps \<subseteq> ?N}"
    and ordp: "\<forall>i<length ord. \<exists>deps. map_of inc0 (name (ord ! i)) = Some deps
         \<and> deps \<subseteq> name ` set (take i ord)"
    and bnp: "\<forall>s\<in>set ord. map_of bn (name s) = Some s"
    using inv by (auto simp: kahn_inv_def)
  have nin: "?n \<in> set ready" using ne by simp
  have rdy: "ready = butlast ready @ [?n]" using ne by simp
  have nb: "?n \<notin> set (butlast ready)"
    using dr rdy by (metis distinct_append not_distinct_conv_prefix)
  have nN: "?n \<notin> ?N" using nin disj by auto
  have N': "name ` set (ord @ [s]) = insert ?n ?N" using s(2) by auto
  have dinc: "distinct (map fst inc)"
    using d0 unfolding inc by (simp add: case_prod_unfold comp_def)
  have mo: "map_of inc m = map_option (\<lambda>deps. deps - ?N) (map_of inc0 m)" for m
    unfolding inc by (induction inc0) auto
  have newset: "set ?new = {m. \<exists>deps. map_of inc0 m = Some deps \<and> ?n \<in> deps - ?N \<and> deps - ?N - {?n} = {}}"
    unfolding map_of_filter_keys [OF dinc] by (auto simp: mo)
  obtain dn where dn: "map_of inc0 ?n = Some dn" "dn \<subseteq> ?N"
    using cov nin by blast
  have a: "fst (relax ?n inc (butlast ready)) = map (\<lambda>(m, deps). (m, deps - name ` set (ord @ [s]))) inc0"
    unfolding relax_fst inc N' by (auto simp: case_prod_unfold)
  have dnew: "distinct ?new"
    using dinc by (simp add: distinct_map_filter)
  have new_fresh: "set ?new \<inter> (set ready \<union> ?N) = {}"
    unfolding newset cov by auto
  have b1: "distinct (butlast ready @ ?new)"
    using dr dnew new_fresh by (auto simp: distinct_butlast dest: in_set_butlastD)
  have b2: "distinct (map name (ord @ [s]))"
    using dord nN s(2) by auto
  have b3: "set (butlast ready @ ?new) \<inter> name ` set (ord @ [s]) = {}"
    unfolding N' using nb new_fresh nin disj by (auto dest: in_set_butlastD)
  have sr: "set ready = insert ?n (set (butlast ready))"
    using rdy by (metis Un_insert_right append_Nil2 list.simps(15) set_append)
  have c: "set (butlast ready @ ?new) \<union> name ` set (ord @ [s])
      = {m. \<exists>deps. map_of inc0 m = Some deps \<and> deps \<subseteq> name ` set (ord @ [s])}"
  proof -
    have k: "(deps \<subseteq> ?N \<or> (?n \<in> deps - ?N \<and> deps - ?N - {?n} = {})) \<longleftrightarrow> deps \<subseteq> insert ?n ?N"
      for deps using nN by blast
    have "set (butlast ready @ ?new) \<union> name ` set (ord @ [s]) = (set ready \<union> ?N) \<union> set ?new"
      unfolding N' sr by auto
    also have "\<dots> = {m. \<exists>deps. map_of inc0 m = Some deps \<and>
        (deps \<subseteq> ?N \<or> (?n \<in> deps - ?N \<and> deps - ?N - {?n} = {}))}"
      unfolding cov newset by blast
    also have "\<dots> = {m. \<exists>deps. map_of inc0 m = Some deps \<and> deps \<subseteq> insert ?n ?N}"
      unfolding k ..
    finally show ?thesis unfolding N' .
  qed
  have d: "\<forall>i<length (ord @ [s]). \<exists>deps. map_of inc0 (name ((ord @ [s]) ! i)) = Some deps
         \<and> deps \<subseteq> name ` set (take i (ord @ [s]))"
  proof (intro allI impI)
    fix i assume "i < length (ord @ [s])"
    then consider "i < length ord" | "i = length ord" by force
    then show "\<exists>deps. map_of inc0 (name ((ord @ [s]) ! i)) = Some deps
         \<and> deps \<subseteq> name ` set (take i (ord @ [s]))"
    proof cases
      case 1
      then show ?thesis using ordp by (simp add: nth_append)
    next
      case 2
      then show ?thesis using dn s(2) by (simp add: nth_append)
    qed
  qed
  have e: "\<forall>x\<in>set (ord @ [s]). map_of bn (name x) = Some x"
    using bnp s by auto
  show ?thesis
    unfolding kahn_inv_def relax_snd using a b1 b2 b3 c d e by simp
qed

lemma kahn_correct:
  assumes "kahn_inv bn inc0 inc ready ord"
    and "distinct (map fst inc0)"
    and "\<And>m deps. map_of inc0 m = Some deps \<Longrightarrow> \<exists>s. map_of bn m = Some s \<and> name s = m"
  shows "\<exists>inc' ord'. kahn bn inc ready ord = Inr (inc', ord') \<and> kahn_inv bn inc0 inc' [] ord'"
  using assms
proof (induction bn inc ready ord rule: kahn.induct)
  case (1 bn inc ready ord)
  show ?case
  proof (cases "ready = []")
    case True
    then show ?thesis using "1.prems"(1) by (subst kahn.simps) simp
  next
    case False
    then have "last ready \<in> set ready \<union> name ` set ord" by simp
    then obtain deps where "map_of inc0 (last ready) = Some deps"
      using "1.prems"(1) unfolding kahn_inv_def by blast
    then obtain s where s: "map_of bn (last ready) = Some s" "name s = last ready"
      using "1.prems"(3) by blast
    have "kahn_inv bn inc0 (fst (relax (last ready) inc (butlast ready)))
           (snd (relax (last ready) inc (butlast ready))) (ord @ [s])"
      using kahn_inv_step [OF "1.prems"(1,2) False s] .
    then have "\<exists>inc' ord'. kahn bn (fst (relax (last ready) inc (butlast ready)))
           (snd (relax (last ready) inc (butlast ready))) (ord @ [s]) = Inr (inc', ord')
         \<and> kahn_inv bn inc0 inc' [] ord'"
      using "1.IH" [OF False s(1)] "1.prems"(2,3) by blast
    then show ?thesis
      using False s(1) by (subst kahn.simps) simp
  qed
qed

text \<open>Dictionaries built by insertion.\<close>

lemma find_app:
  "find P (xs @ ys) = (case find P xs of None \<Rightarrow> find P ys | Some x \<Rightarrow> Some x)"
  by (induction xs) auto

lemma find_SomeD: "find P xs = Some x \<Longrightarrow> x \<in> set xs \<and> P x"
  by (induction xs) (auto split: if_splits)

lemma dict_map_of:
  "map_of (foldl (\<lambda>d s. AList.update (k s) (f s) d) acc xs) n =
     (case find (\<lambda>s. k s = n) (rev xs) of Some s \<Rightarrow> Some (f s) | None \<Rightarrow> map_of acc n)"
proof (induction xs arbitrary: acc)
  case Nil
  then show ?case by simp
next
  case (Cons x xs)
  show ?case
    unfolding foldl_Cons Cons.IH
    by (auto simp: find_app update_conv' split: option.splits)
qed

lemma dict_distinct:
  "distinct (map fst acc) \<Longrightarrow> distinct (map fst (foldl (\<lambda>d s. AList.update (k s) (f s) d) acc xs))"
  by (induction xs arbitrary: acc) (simp_all add: distinct_update)

lemma dict_length:
  "length (foldl (\<lambda>d s. AList.update (k s) (f s) d) acc xs) \<le> length acc + length xs"
proof (induction xs arbitrary: acc)
  case Nil
  then show ?case by simp
next
  case (Cons x xs)
  have "length (AList.update (k x) (f x) acc) \<le> Suc (length acc)"
    by (induction acc) auto
  then show ?case using Cons.IH [of "AList.update (k x) (f x) acc"] by simp
qed

lemma update_fresh: "k \<notin> fst ` set al \<Longrightarrow> AList.update k v al = al @ [(k, v)]"
  by (induction al) auto

lemma dict_distinct_keys:
  "distinct (map k xs) \<Longrightarrow> k ` set xs \<inter> fst ` set acc = {} \<Longrightarrow>
   foldl (\<lambda>d s. AList.update (k s) (f s) d) acc xs = acc @ map (\<lambda>s. (k s, f s)) xs"
proof (induction xs arbitrary: acc)
  case Nil
  then show ?case by simp
next
  case (Cons x xs)
  have u: "AList.update (k x) (f x) acc = acc @ [(k x, f x)]"
    using Cons.prems(2) by (intro update_fresh) auto
  have "k ` set xs \<inter> fst ` set (acc @ [(k x, f x)]) = {}"
    using Cons.prems by auto
  then show ?case
    using Cons.IH [of "acc @ [(k x, f x)]"] Cons.prems(1) u by simp
qed

lemma by_name_lookup:
  "map_of (by_name_of ss) n = find (\<lambda>s. name s = n) (rev ss)"
  unfolding by_name_of_def dict_map_of by (simp split: option.splits)

lemma incoming_lookup:
  "map_of (incoming_of ss) n = map_option (\<lambda>s. set (depends_on s)) (find (\<lambda>s. name s = n) (rev ss))"
  unfolding incoming_of_def dict_map_of by (simp split: option.splits)

lemma by_name_None: "map_of (by_name_of ss) n = None \<longleftrightarrow> n \<notin> name ` set ss"
  unfolding by_name_lookup by (auto simp: find_None_iff)

lemma by_name_Some: "map_of (by_name_of ss) n = Some s \<Longrightarrow> s \<in> set ss \<and> name s = n"
  unfolding by_name_lookup by (auto dest: find_SomeD)

lemma incoming_by_name:
  "map_of (incoming_of ss) m = Some deps \<Longrightarrow> \<exists>s. map_of (by_name_of ss) m = Some s \<and> name s = m"
  unfolding incoming_lookup by_name_lookup by (auto dest: find_SomeD)

lemma incoming_distinct: "distinct (map fst (incoming_of ss))"
  unfolding incoming_of_def by (rule dict_distinct) simp

lemma incoming_length: "length (incoming_of ss) \<le> length ss"
  unfolding incoming_of_def using dict_length [of name "\<lambda>s. set (depends_on s)" "[]" ss] by simp

lemma incoming_of_distinct:
  "distinct (map name ss) \<Longrightarrow> incoming_of ss = map (\<lambda>s. (name s, set (depends_on s))) ss"
  unfolding incoming_of_def using dict_distinct_keys [of name ss "[]"] by simp

lemma by_name_of_distinct:
  "distinct (map name ss) \<Longrightarrow> by_name_of ss = map (\<lambda>s. (name s, s)) ss"
  unfolding by_name_of_def using dict_distinct_keys [of name ss "[]"] by simp

lemma check_deps_None:
  "check_deps bn ss = None \<longleftrightarrow> (\<forall>s\<in>set ss. \<forall>d\<in>set (depends_on s). map_of bn d \<noteq> None)"
  by (induction ss) (auto simp: find_None_iff dest: find_SomeD split: option.splits)

lemma check_deps_Some:
  "check_deps bn ss = Some e \<Longrightarrow>
   \<exists>s d. e = Missing_dependency d (name s) \<and> s \<in> set ss \<and> d \<in> set (depends_on s) \<and> map_of bn d = None"
  by (induction ss) (auto dest: find_SomeD split: option.splits)

lemma check_deps_present: "check_deps (by_name_of ss) ss = None \<longleftrightarrow> deps_present ss"
  unfolding check_deps_None deps_present_def by (simp add: by_name_None)

lemma kahn_inv_init:
  assumes "distinct (map fst inc0)"
  shows "kahn_inv bn inc0 inc0 (map fst (filter (\<lambda>(n, deps). deps = {}) inc0)) []"
proof -
  have "set (map fst (filter (\<lambda>(n, deps). deps = {}) inc0))
      = {m. \<exists>deps. map_of inc0 m = Some deps \<and> deps \<subseteq> {}}"
    unfolding map_of_filter_keys [OF assms] by auto
  then show ?thesis
    using assms by (simp add: kahn_inv_def distinct_map_filter case_prod_unfold)
qed

lemma kahn_toposort:
  "\<exists>inc' ord'. kahn (by_name_of ss) (incoming_of ss)
       (map fst (filter (\<lambda>(n, deps). deps = {}) (incoming_of ss))) [] = Inr (inc', ord')
     \<and> kahn_inv (by_name_of ss) (incoming_of ss) inc' [] ord'"
proof -
  have "kahn_inv (by_name_of ss) (incoming_of ss) (incoming_of ss)
      (map fst (filter (\<lambda>(n, deps). deps = {}) (incoming_of ss))) []"
    by (rule kahn_inv_init [OF incoming_distinct])
  then show ?thesis
    by (rule kahn_correct [OF _ incoming_distinct incoming_by_name])
qed

lemma dep_graph_distinct: "distinct (map name ss) \<Longrightarrow> dep_graph ss = dep_rel ss"
proof -
  assume d: "distinct (map name ss)"
  have "map_of (incoming_of ss) m = Some deps \<longleftrightarrow> (\<exists>s\<in>set ss. name s = m \<and> deps = set (depends_on s))"
    for m deps
  proof -
    have "distinct (map fst (map (\<lambda>s. (name s, set (depends_on s))) ss))"
      using d by (simp add: comp_def)
    then show ?thesis
      unfolding incoming_of_distinct [OF d]
      by (auto simp: map_of_eq_Some_iff)
  qed
  then show ?thesis
    unfolding dep_graph_def dep_rel_def by auto
qed

lemma dep_rel_image: "dep_rel ss = (\<Union>s\<in>set ss. (\<lambda>d. (name s, d)) ` set (depends_on s))"
  unfolding dep_rel_def by auto

lemma finite_dep_rel: "finite (dep_rel ss)"
proof -
  have "dep_rel ss \<subseteq> name ` set ss \<times> (\<Union>s\<in>set ss. set (depends_on s))"
    unfolding dep_rel_def by auto
  moreover have "finite (name ` set ss \<times> (\<Union>s\<in>set ss. set (depends_on s)))"
    by simp
  ultimately show ?thesis by (rule finite_subset)
qed

text \<open>What the invariant says once the loop has ended.\<close>

lemma kahn_inv_ordered_deps:
  assumes "kahn_inv bn inc0 inc' [] ord'" and "i < length ord'"
    and "(name (ord' ! i), d) \<in> {(m, d). \<exists>deps. map_of inc0 m = Some deps \<and> d \<in> deps}"
  shows "\<exists>j<i. name (ord' ! j) = d"
proof -
  obtain deps where deps: "map_of inc0 (name (ord' ! i)) = Some deps" "deps \<subseteq> name ` set (take i ord')"
    using assms(1,2) unfolding kahn_inv_def by blast
  have "d \<in> deps" using assms(3) deps(1) by auto
  then have "d \<in> name ` set (take i ord')" using deps(2) by blast
  then obtain x where x: "x \<in> set (take i ord')" "name x = d" by blast
  then obtain j where "j < length (take i ord')" "take i ord' ! j = x"
    by (auto simp: in_set_conv_nth)
  then have "j < i" "ord' ! j = x" using assms(2) by auto
  then show ?thesis using x(2) by blast
qed

lemma kahn_inv_ordered_trancl:
  assumes inv: "kahn_inv bn inc0 inc' [] ord'"
    and t: "(n, m) \<in> {(m, d). \<exists>deps. map_of inc0 m = Some deps \<and> d \<in> deps}\<^sup>+"
  shows "i < length ord' \<Longrightarrow> name (ord' ! i) = n \<Longrightarrow> \<exists>j<i. name (ord' ! j) = m"
  using t
proof (induction arbitrary: i rule: trancl_induct)
  case (base y)
  then show ?case using kahn_inv_ordered_deps [OF inv, of i y] by simp
next
  case (step y z)
  obtain j where j: "j < i" "name (ord' ! j) = y"
    using step.IH [OF step.prems] by blast
  then have "j < length ord'" using step.prems(1) by simp
  then obtain j' where "j' < j" "name (ord' ! j') = z"
    using kahn_inv_ordered_deps [OF inv, of j z] j(2) step.hyps(2) by auto
  then show ?case using j(1) less_trans by blast
qed

lemma kahn_inv_cycle_not_ordered:
  assumes inv: "kahn_inv bn inc0 inc' [] ord'"
    and t: "(n, n) \<in> {(m, d). \<exists>deps. map_of inc0 m = Some deps \<and> d \<in> deps}\<^sup>+"
  shows "n \<notin> name ` set ord'"
proof
  assume "n \<in> name ` set ord'"
  then have "\<exists>i. i < length ord' \<and> name (ord' ! i) = n"
    by (auto simp: in_set_conv_nth)
  then obtain i where i: "i < length ord' \<and> name (ord' ! i) = n"
    and least: "\<And>j. j < i \<Longrightarrow> \<not> (j < length ord' \<and> name (ord' ! j) = n)"
    using exists_least_iff [of "\<lambda>i. i < length ord' \<and> name (ord' ! i) = n"] by blast
  obtain j where "j < i" "name (ord' ! j) = n"
    using kahn_inv_ordered_trancl [OF inv t, of i] i by blast
  then show False using least [of j] i by simp
qed

lemma toposort_result:
  assumes "deps_present ss"
  obtains inc' ord' where
    "kahn_inv (by_name_of ss) (incoming_of ss) inc' [] ord'"
    "toposort ss = (if length ord' \<noteq> length ss
        then Inl (Cycle (filter (\<lambda>(k, v). v \<noteq> {}) inc')) else Inr ord')"
proof -
  obtain inc' ord' where k: "kahn (by_name_of ss) (incoming_of ss)
       (map fst (filter (\<lambda>(n, deps). deps = {}) (incoming_of ss))) [] = Inr (inc', ord')"
     and inv: "kahn_inv (by_name_of ss) (incoming_of ss) inc' [] ord'"
    using kahn_toposort [of ss] by blast
  have "toposort ss = (if length ord' \<noteq> length ss
        then Inl (Cycle (filter (\<lambda>(k, v). v \<noteq> {}) inc')) else Inr ord')"
  proof -
    have c: "check_deps (by_name_of ss) ss = None"
      using assms check_deps_present by blast
    show ?thesis
      unfolding toposort_def Let_def c k by simp
  qed
  then show ?thesis using inv that by blast
qed

lemma new_LoadPlan_acyclic:
  assumes dist: "distinct (map name ss)" and pres: "deps_present ss" and acyc: "acyclic (dep_rel ss)"
  shows "\<exists>ordered. new_LoadPlan ss = Inr \<lparr>specs = ss, order = ordered\<rparr>
     \<and> mset ordered = mset ss
     \<and> (\<forall>i<length ordered. \<forall>d\<in>set (depends_on (ordered ! i)). \<exists>j<i. name (ordered ! j) = d)"
proof -
  obtain inc' ord' where inv: "kahn_inv (by_name_of ss) (incoming_of ss) inc' [] ord'"
    and res: "toposort ss = (if length ord' \<noteq> length ss
        then Inl (Cycle (filter (\<lambda>(k, v). v \<noteq> {}) inc')) else Inr ord')"
    using toposort_result [OF pres] by blast
  let ?N = "name ` set ord'"
  have look: "map_of (incoming_of ss) (name s) = Some (set (depends_on s))" if "s \<in> set ss" for s
  proof -
    have "distinct (map fst (map (\<lambda>s. (name s, set (depends_on s))) ss))"
      using dist by (simp add: comp_def)
    then show ?thesis
      unfolding incoming_of_distinct [OF dist] using that by (auto simp: map_of_eq_Some_iff)
  qed
  have cov: "?N = {m. \<exists>deps. map_of (incoming_of ss) m = Some deps \<and> deps \<subseteq> ?N}"
    and dord: "distinct (map name ord')"
    and bnp: "\<forall>s\<in>set ord'. map_of (by_name_of ss) (name s) = Some s"
    using inv unfolding kahn_inv_def by auto
  have sub: "set ord' \<subseteq> set ss"
    using bnp by_name_Some by blast
  have all: "name ` set ss \<subseteq> ?N"
  proof (rule ccontr)
    assume "\<not> name ` set ss \<subseteq> ?N"
    then have ne: "\<exists>z. z \<in> name ` set ss - ?N" by blast
    have "wf ((dep_rel ss)\<inverse>)"
      using finite_acyclic_wf_converse [OF finite_dep_rel acyc] .
    then obtain z where z: "z \<in> name ` set ss - ?N"
      and zmin: "\<And>y. (y, z) \<in> (dep_rel ss)\<inverse> \<Longrightarrow> y \<notin> name ` set ss - ?N"
      using ne by (metis wfE_min)
    obtain s where s: "s \<in> set ss" "name s = z" using z by blast
    have "\<not> set (depends_on s) \<subseteq> ?N"
    proof
      assume "set (depends_on s) \<subseteq> ?N"
      then have "z \<in> {m. \<exists>deps. map_of (incoming_of ss) m = Some deps \<and> deps \<subseteq> ?N}"
        using look [OF s(1)] s(2) by auto
      then show False using cov z by blast
    qed
    then obtain d where d: "d \<in> set (depends_on s)" "d \<notin> ?N" by blast
    have "(z, d) \<in> dep_rel ss" using s d(1) unfolding dep_rel_def by blast
    moreover have "d \<in> name ` set ss" using pres s(1) d(1) unfolding deps_present_def by blast
    ultimately show False using zmin [of d] d(2) by blast
  qed
  have Neq: "?N = name ` set ss" using all sub by blast
  have "length ord' = card ?N"
    using dord by (metis distinct_card length_map set_map)
  also have "\<dots> = length ss"
    unfolding Neq using dist by (metis distinct_card length_map set_map)
  finally have len: "length ord' = length ss" .
  have dss: "distinct ss" using dist by (simp add: distinct_map)
  have dord': "distinct ord'" using dord by (simp add: distinct_map)
  have "card (set ord') = card (set ss)"
    using len dss dord' by (simp add: distinct_card)
  then have "set ord' = set ss"
    using sub by (simp add: card_subset_eq)
  then have ms: "mset ord' = mset ss"
    using dss dord' by (simp add: set_eq_iff_mset_eq_distinct)
  have ordp: "\<exists>j<i. name (ord' ! j) = d" if "i < length ord'" "d \<in> set (depends_on (ord' ! i))" for i d
  proof -
    have "ord' ! i \<in> set ss" using that(1) sub by auto
    then have "map_of (incoming_of ss) (name (ord' ! i)) = Some (set (depends_on (ord' ! i)))"
      by (rule look)
    then show ?thesis
      using kahn_inv_ordered_deps [OF inv that(1), of d] that(2) by auto
  qed
  show ?thesis
    using res len ms ordp by (auto simp: new_LoadPlan_def)
qed

subsection \<open>C4: the order of an acyclic plan\<close>

text \<open>
  C4 says that construction succeeds for every collection of specs whose dependencies
  are all present and acyclic. \<^verbatim>\<open>_toposort\<close> compares the number of ordered specs with
  the length of the list it was given, while its dictionaries hold one entry per name:
  two specs of the same name, with no dependency at all, are rejected as a cycle.
\<close>

theorem new_LoadPlan_duplicate_counterexample:
  "deps_present [table_spec (cps ''A'') [], table_spec (cps ''A'') []]
   \<and> acyclic (dep_rel [table_spec (cps ''A'') [], table_spec (cps ''A'') []])
   \<and> new_LoadPlan [table_spec (cps ''A'') [], table_spec (cps ''A'') []] = Inl (Cycle [])"
proof -
  have "dep_rel [table_spec (cps ''A'') [], table_spec (cps ''A'') []] = {}"
    by (auto simp: dep_rel_def table_spec_def)
  then have "acyclic (dep_rel [table_spec (cps ''A'') [], table_spec (cps ''A'') []])"
    by (simp add: acyclic_def)
  moreover have "deps_present [table_spec (cps ''A'') [], table_spec (cps ''A'') []]"
    by (simp add: deps_present_def table_spec_def)
  moreover have
    "new_LoadPlan [table_spec (cps ''A'') [], table_spec (cps ''A'') []] = Inl (Cycle [])"
    by (simp add: new_LoadPlan_def toposort_def by_name_of_def incoming_of_def table_spec_def
        cps_def kahn.simps Let_def)
  ultimately show ?thesis by simp
qed

text \<open>
  C4 as amended: for every collection of specs with pairwise distinct names whose
  dependencies are all present and acyclic, the construction of the plan succeeds; the
  order is a permutation of the specs, and every spec comes after the specs that its
  \<^verbatim>\<open>depends_on\<close> names. For A, B depending on A, and C depending on A and B, the order
  is A, B, C (the instance after the theorem).
\<close>

theorem toposort_acyclic:
  assumes dist: "distinct (map name ss)" and pres: "deps_present ss" and acyc: "acyclic (dep_rel ss)"
  shows "\<exists>ordered. new_LoadPlan ss = Inr \<lparr>specs = ss, order = ordered\<rparr>
     \<and> mset ordered = mset ss
     \<and> (\<forall>i<length ordered. \<forall>d\<in>set (depends_on (ordered ! i)). \<exists>j<i. name (ordered ! j) = d)"
  using dist pres acyc by (rule new_LoadPlan_acyclic)

theorem toposort_acyclic_witness:
  "distinct (map name [table_spec (cps ''A'') [], table_spec (cps ''B'') [cps ''A''],
      table_spec (cps ''C'') [cps ''A'', cps ''B'']])
   \<and> deps_present [table_spec (cps ''A'') [], table_spec (cps ''B'') [cps ''A''],
      table_spec (cps ''C'') [cps ''A'', cps ''B'']]
   \<and> acyclic (dep_rel [table_spec (cps ''A'') [], table_spec (cps ''B'') [cps ''A''],
      table_spec (cps ''C'') [cps ''A'', cps ''B'']])
   \<and> new_LoadPlan [table_spec (cps ''A'') [], table_spec (cps ''B'') [cps ''A''],
      table_spec (cps ''C'') [cps ''A'', cps ''B'']]
     = Inr \<lparr>specs = [table_spec (cps ''A'') [], table_spec (cps ''B'') [cps ''A''],
                table_spec (cps ''C'') [cps ''A'', cps ''B'']],
            order = [table_spec (cps ''A'') [], table_spec (cps ''B'') [cps ''A''],
                table_spec (cps ''C'') [cps ''A'', cps ''B'']]\<rparr>"
proof -
  let ?ss = "[table_spec (cps ''A'') [], table_spec (cps ''B'') [cps ''A''],
      table_spec (cps ''C'') [cps ''A'', cps ''B'']]"
  have d: "distinct (map name ?ss)"
    by (simp add: table_spec_def cps_def)
  have p: "deps_present ?ss"
    by (simp add: deps_present_def table_spec_def cps_def)
  have r: "dep_rel ?ss = {(cps ''B'', cps ''A''), (cps ''C'', cps ''A''), (cps ''C'', cps ''B'')}"
    by (auto simp: dep_rel_image table_spec_def)
  have a: "acyclic (dep_rel ?ss)"
    unfolding r
    by (rule acyclicI_order [where f = "\<lambda>n. if n = cps ''A'' then 0::nat
         else if n = cps ''B'' then 1 else 2"]) (auto simp: cps_def)
  have e: "new_LoadPlan ?ss = Inr \<lparr>specs = ?ss, order = ?ss\<rparr>"
    by (simp add: new_LoadPlan_def toposort_def by_name_of_def incoming_of_def table_spec_def
        cps_def kahn.simps Let_def)
  show ?thesis
    using toposort_acyclic [OF d p a] d p a e by simp
qed

subsection \<open>C5: missing dependencies and cycles\<close>

text \<open>
  The two failures in terms of the graph that \<^verbatim>\<open>_toposort\<close> sorts, the dictionary
  \<open>incoming\<close>: a missing dependency is reported with the spec that requires it, and
  every node on a cycle of that graph is a key of the dictionary in the error.
\<close>

lemma new_LoadPlan_errors:
  "(\<not> deps_present ss \<longrightarrow>
      (\<exists>s d. s \<in> set ss \<and> d \<in> set (depends_on s) \<and> d \<notin> name ` set ss
         \<and> new_LoadPlan ss = Inl (Missing_dependency d (name s))))
   \<and> (deps_present ss \<and> (n, n) \<in> (dep_graph ss)\<^sup>+ \<longrightarrow>
      (\<exists>cyclic. new_LoadPlan ss = Inl (Cycle cyclic) \<and> n \<in> fst ` set cyclic))"
proof (intro conjI impI)
  assume "\<not> deps_present ss"
  then obtain e where e: "check_deps (by_name_of ss) ss = Some e"
    using check_deps_present [of ss] by auto
  then obtain s d where "e = Missing_dependency d (name s)" "s \<in> set ss" "d \<in> set (depends_on s)"
      "map_of (by_name_of ss) d = None"
    using check_deps_Some by blast
  then show "\<exists>s d. s \<in> set ss \<and> d \<in> set (depends_on s) \<and> d \<notin> name ` set ss
         \<and> new_LoadPlan ss = Inl (Missing_dependency d (name s))"
    using e by (auto simp: new_LoadPlan_def toposort_def Let_def by_name_None)
next
  assume a: "deps_present ss \<and> (n, n) \<in> (dep_graph ss)\<^sup>+"
  obtain inc' ord' where inv: "kahn_inv (by_name_of ss) (incoming_of ss) inc' [] ord'"
    and res: "toposort ss = (if length ord' \<noteq> length ss
        then Inl (Cycle (filter (\<lambda>(k, v). v \<noteq> {}) inc')) else Inr ord')"
    using toposort_result a by blast
  let ?N = "name ` set ord'"
  have cyc: "(n, n) \<in> {(m, d). \<exists>deps. map_of (incoming_of ss) m = Some deps \<and> d \<in> deps}\<^sup>+"
    using a unfolding dep_graph_def by simp
  have nN: "n \<notin> ?N"
    using kahn_inv_cycle_not_ordered [OF inv cyc] .
  obtain x where "(n, x) \<in> dep_graph ss"
    using a by (meson tranclD)
  then obtain deps where deps: "map_of (incoming_of ss) n = Some deps"
    unfolding dep_graph_def by blast
  have inc': "inc' = map (\<lambda>(m, deps). (m, deps - ?N)) (incoming_of ss)"
    and cov: "?N = {m. \<exists>deps. map_of (incoming_of ss) m = Some deps \<and> deps \<subseteq> ?N}"
    and dord: "distinct (map name ord')"
    using inv unfolding kahn_inv_def by auto
  have "\<not> deps \<subseteq> ?N" using cov nN deps by blast
  then have ne: "deps - ?N \<noteq> {}" by blast
  have "(n, deps) \<in> set (incoming_of ss)" using deps by (rule map_of_SomeD)
  then have "(n, deps - ?N) \<in> set inc'" unfolding inc' by force
  then have mem: "n \<in> fst ` set (filter (\<lambda>(k, v). v \<noteq> {}) inc')"
    using ne by force
  have keys: "?N \<subseteq> fst ` set (incoming_of ss)"
  proof
    fix m assume "m \<in> ?N"
    then obtain dm where "map_of (incoming_of ss) m = Some dm" using cov by blast
    then have "(m, dm) \<in> set (incoming_of ss)" by (rule map_of_SomeD)
    then show "m \<in> fst ` set (incoming_of ss)" by force
  qed
  have "n \<in> fst ` set (incoming_of ss)"
    using deps by (auto dest: map_of_SomeD simp: rev_image_eqI)
  then have "?N \<subset> fst ` set (incoming_of ss)" using keys nN by blast
  then have "card ?N < card (fst ` set (incoming_of ss))"
    by (simp add: psubset_card_mono)
  moreover have "card ?N = length ord'"
    using dord by (metis distinct_card length_map set_map)
  moreover have "card (fst ` set (incoming_of ss)) \<le> length ss"
    using incoming_length [of ss] card_length [of "map fst (incoming_of ss)"] by simp
  ultimately have "length ord' \<noteq> length ss" by simp
  then show "\<exists>cyclic. new_LoadPlan ss = Inl (Cycle cyclic) \<and> n \<in> fst ` set cyclic"
    using res mem by (auto simp: new_LoadPlan_def)
qed

text \<open>
  C5 as it is stated fails for a repeated name. Of the specs X depending on Y, Y
  depending on X, and a second X without dependencies, all dependencies are present and
  the first two form a cycle; the dictionary keeps the second X, both specs are ordered,
  and the comparison of the lengths raises the error for a cycle with an empty
  dictionary, which names no node.
\<close>

theorem new_LoadPlan_cycle_unnamed_counterexample:
  "deps_present [table_spec (cps ''X'') [cps ''Y''], table_spec (cps ''Y'') [cps ''X''],
                 table_spec (cps ''X'') []]
   \<and> (cps ''X'', cps ''X'')
       \<in> (dep_rel [table_spec (cps ''X'') [cps ''Y''], table_spec (cps ''Y'') [cps ''X''],
                    table_spec (cps ''X'') []])\<^sup>+
   \<and> new_LoadPlan [table_spec (cps ''X'') [cps ''Y''], table_spec (cps ''Y'') [cps ''X''],
                    table_spec (cps ''X'') []]
       = Inl (Cycle [])"
proof -
  let ?ss = "[table_spec (cps ''X'') [cps ''Y''], table_spec (cps ''Y'') [cps ''X''],
              table_spec (cps ''X'') []]"
  have p: "deps_present ?ss"
    by (simp add: deps_present_def table_spec_def cps_def)
  have "(cps ''X'', cps ''Y'') \<in> dep_rel ?ss" "(cps ''Y'', cps ''X'') \<in> dep_rel ?ss"
    by (auto simp: dep_rel_image table_spec_def)
  then have x: "(cps ''X'', cps ''X'') \<in> (dep_rel ?ss)\<^sup>+"
    by (rule trancl_into_trancl [OF r_into_trancl])
  have e: "new_LoadPlan ?ss = Inl (Cycle [])"
    by (simp add: new_LoadPlan_def toposort_def by_name_of_def incoming_of_def table_spec_def
        cps_def kahn.simps Let_def)
  show ?thesis using p x e by simp
qed

text \<open>
  C5, amended: the construction of a plan fails when a \<^verbatim>\<open>depends_on\<close> entry names no
  spec, with an error that names a missing dependency and the spec that requires it;
  and when the names of the specs are pairwise distinct, all dependencies are present
  and the declared dependencies have a cycle, it fails with an error that lists every
  node \<open>n\<close> of a cycle among the names with unresolved dependencies. For X depending on
  Y and Y depending on X, the error lists both (the instance after the theorem).
\<close>

theorem toposort_errors:
  "(\<not> deps_present ss \<longrightarrow>
      (\<exists>s d. s \<in> set ss \<and> d \<in> set (depends_on s) \<and> d \<notin> name ` set ss
         \<and> new_LoadPlan ss = Inl (Missing_dependency d (name s))))
   \<and> (distinct (map name ss) \<and> deps_present ss \<and> (n, n) \<in> (dep_rel ss)\<^sup>+ \<longrightarrow>
      (\<exists>cyclic. new_LoadPlan ss = Inl (Cycle cyclic) \<and> n \<in> fst ` set cyclic))"
  using new_LoadPlan_errors [of ss n] dep_graph_distinct [of ss] by simp

theorem toposort_errors_witness:
  "distinct (map name [table_spec (cps ''X'') [cps ''Y''], table_spec (cps ''Y'') [cps ''X'']])
   \<and> deps_present [table_spec (cps ''X'') [cps ''Y''], table_spec (cps ''Y'') [cps ''X'']]
   \<and> (cps ''X'', cps ''X'')
       \<in> (dep_rel [table_spec (cps ''X'') [cps ''Y''], table_spec (cps ''Y'') [cps ''X'']])\<^sup>+
   \<and> (cps ''Y'', cps ''Y'')
       \<in> (dep_rel [table_spec (cps ''X'') [cps ''Y''], table_spec (cps ''Y'') [cps ''X'']])\<^sup>+
   \<and> new_LoadPlan [table_spec (cps ''X'') [cps ''Y''], table_spec (cps ''Y'') [cps ''X'']]
       = Inl (Cycle [(cps ''X'', {cps ''Y''}), (cps ''Y'', {cps ''X''})])
   \<and> \<not> deps_present [table_spec (cps ''X'') [cps ''Y''], table_spec (cps ''Y'') [cps ''Z'']]
   \<and> new_LoadPlan [table_spec (cps ''X'') [cps ''Y''], table_spec (cps ''Y'') [cps ''Z'']]
       = Inl (Missing_dependency (cps ''Z'') (cps ''Y''))"
proof -
  let ?xy = "[table_spec (cps ''X'') [cps ''Y''], table_spec (cps ''Y'') [cps ''X'']]"
  let ?xz = "[table_spec (cps ''X'') [cps ''Y''], table_spec (cps ''Y'') [cps ''Z'']]"
  have d: "distinct (map name ?xy)"
    by (simp add: table_spec_def cps_def)
  have p: "deps_present ?xy"
    by (simp add: deps_present_def table_spec_def cps_def)
  have g: "dep_rel ?xy = {(cps ''X'', cps ''Y''), (cps ''Y'', cps ''X'')}"
    by (auto simp: dep_rel_image table_spec_def)
  have x: "(cps ''X'', cps ''X'') \<in> (dep_rel ?xy)\<^sup>+"
    unfolding g by (rule trancl_into_trancl [of _ "cps ''Y''"]) auto
  have y: "(cps ''Y'', cps ''Y'') \<in> (dep_rel ?xy)\<^sup>+"
    unfolding g by (rule trancl_into_trancl [of _ "cps ''X''"]) auto
  have e: "new_LoadPlan ?xy = Inl (Cycle [(cps ''X'', {cps ''Y''}), (cps ''Y'', {cps ''X''})])"
    by (simp add: new_LoadPlan_def toposort_def by_name_of_def incoming_of_def table_spec_def
        cps_def kahn.simps Let_def)
  have np: "\<not> deps_present ?xz"
    by (simp add: deps_present_def table_spec_def cps_def)
  have m: "new_LoadPlan ?xz = Inl (Missing_dependency (cps ''Z'') (cps ''Y''))"
    by (simp add: new_LoadPlan_def toposort_def by_name_of_def incoming_of_def table_spec_def
        cps_def Let_def)
  show ?thesis
    using toposort_errors [of ?xy "cps ''X''"] toposort_errors [of ?xz "cps ''Z''"] d p x y e np m
    by simp
qed

subsection \<open>The plan of the repository\<close>

text \<open>
  In \<^verbatim>\<open>build_savh_load_plan\<close> the names are distinct and every spec depends on specs
  listed before it, so the plan is built.
\<close>

lemma deps_earlier_split:
  "deps_earlier seen (pre @ s # post) \<Longrightarrow> set (depends_on s) \<subseteq> set seen \<union> name ` set pre"
proof (induction pre arbitrary: seen)
  case Nil
  then show ?case by simp
next
  case (Cons a pre)
  have "deps_earlier (seen @ [name a]) (pre @ s # post)"
    using Cons.prems by simp
  then have "set (depends_on s) \<subseteq> set (seen @ [name a]) \<union> name ` set pre"
    by (rule Cons.IH)
  then show ?case by auto
qed

lemma length_takeWhile_shorter: "x \<in> set xs \<Longrightarrow> \<not> P x \<Longrightarrow> length (takeWhile P xs) < length xs"
  by (induction xs) auto

lemma takeWhile_index_less:
  "d \<in> f ` set pre \<Longrightarrow> length (takeWhile (\<lambda>s. f s \<noteq> d) (pre @ more_specs)) < length pre"
proof -
  assume "d \<in> f ` set pre"
  then obtain x where x: "x \<in> set pre" "\<not> f x \<noteq> d" by auto
  have "takeWhile (\<lambda>s. f s \<noteq> d) (pre @ more_specs) = takeWhile (\<lambda>s. f s \<noteq> d) pre"
    using x by (rule takeWhile_append1)
  moreover have "length (takeWhile (\<lambda>s. f s \<noteq> d) pre) < length pre"
    using x by (rule length_takeWhile_shorter)
  ultimately show ?thesis by simp
qed

lemma deps_earlier_acyclic:
  assumes dist: "distinct (map name ss)" and de: "deps_earlier [] ss"
  shows "deps_present ss \<and> acyclic (dep_rel ss)"
proof
  have key: "\<exists>pre post. ss = pre @ s # post \<and> d \<in> name ` set pre"
    if m: "s \<in> set ss" and dd: "d \<in> set (depends_on s)" for s d
  proof -
    have "\<exists>pre post. ss = pre @ s # post"
      using m by (rule split_list)
    then obtain pre post where sp: "ss = pre @ s # post" by blast
    then have "set (depends_on s) \<subseteq> set [] \<union> name ` set pre"
      using de deps_earlier_split by blast
    then show ?thesis using sp dd by auto
  qed
  show "deps_present ss"
    unfolding deps_present_def using key by fastforce
  show "acyclic (dep_rel ss)"
  proof (rule acyclicI_order [where f = "\<lambda>n. length (takeWhile (\<lambda>s. name s \<noteq> n) ss)"])
    fix a b assume "(a, b) \<in> dep_rel ss"
    then obtain s where s: "s \<in> set ss" "a = name s" "b \<in> set (depends_on s)"
      unfolding dep_rel_def by blast
    obtain pre post where sp: "ss = pre @ s # post" and b: "b \<in> name ` set pre"
      using key [OF s(1) s(3)] by blast
    have "\<forall>x\<in>set pre. name x \<noteq> name s"
      using dist unfolding sp by (auto simp: image_iff)
    then have "takeWhile (\<lambda>x. name x \<noteq> name s) ss = pre"
      unfolding sp by (simp add: takeWhile_append2)
    then have "length (takeWhile (\<lambda>x. name x \<noteq> a) ss) = length pre"
      using s(2) by simp
    moreover have "length (takeWhile (\<lambda>x. name x \<noteq> b) ss) < length pre"
      unfolding sp using takeWhile_index_less [OF b] by simp
    ultimately show "length (takeWhile (\<lambda>x. name x \<noteq> b) ss) < length (takeWhile (\<lambda>x. name x \<noteq> a) ss)"
      by simp
  qed
qed

lemma savh_names_distinct: "distinct (map name savh_specs)"
  by (simp add: savh_specs_def table_spec_def cps_def)

lemma savh_deps_earlier: "deps_earlier [] savh_specs"
  by (simp add: savh_specs_def table_spec_def cps_def)

lemma plan_exists:
  "\<exists>ordered. build_savh_load_plan = Inr \<lparr>specs = savh_specs, order = ordered\<rparr>
     \<and> set ordered = set savh_specs"
  unfolding build_savh_load_plan_def
  using new_LoadPlan_acyclic [OF savh_names_distinct]
    deps_earlier_acyclic [OF savh_names_distinct savh_deps_earlier]
  by (metis mset_eq_setD)

section \<open>Properties of the loader\<close>

subsection \<open>Frames and the selection of columns\<close>

lemma sorted_single: "sorted_list_of_set {x::ustring} = [x]"
  by simp





lemma columns_strip_columns: "columns (strip_columns df) = map strip (columns df)"
  by (simp add: columns_def strip_columns_def comp_def case_prod_unfold)

lemma columns_normalize_nulls: "columns (normalize_nulls df) = columns df"
  by (simp add: columns_def normalize_nulls_def comp_def case_prod_unfold)

lemma strip_columns_normalize_nulls:
  "columns (strip_columns (normalize_nulls df)) = map strip (columns df)"
  by (simp add: columns_def strip_columns_def normalize_nulls_def comp_def case_prod_unfold)

lemma n_rows_getitem [simp]: "n_rows (getitem df labels) = n_rows df"
  by (simp add: getitem_def)

lemma n_rows_strip_columns [simp]: "n_rows (strip_columns df) = n_rows df"
  by (simp add: strip_columns_def)

lemma finite_required_columns: "finite (required_columns meta)"
  by (simp add: required_columns_def)

lemma validate_missing_required:
  assumes "required_columns meta - set (map strip (columns df)) \<noteq> {}"
  shows "validate_and_align_df meta df schema table dropx =
     Inl (ValueError_missing_required schema table
       (sorted_list_of_set (required_columns meta - set (map strip (columns df)))))"
proof -
  have "meta \<noteq> []"
    using assms by (auto simp: required_columns_def)
  then show ?thesis
    using assms by (simp add: validate_and_align_df_def Let_def columns_strip_columns)
qed

subsection \<open>C6: a required column that the dataset lacks\<close>

text \<open>
  C6: when the dataset of a table lacks a column that the table requires (not nullable,
  no default, not identity), validation raises an error that names exactly the missing
  required columns, sorted; and \<^verbatim>\<open>_load_one\<close>, once it has reached the validation (the
  key is in the mapping, the frame is not empty, the table exists), ends with that
  error and leaves the run as it was: nothing is written and no table is recorded as
  loaded.
\<close>

theorem missing_required_column_fails_before_write:
  assumes "schema = schema_for_table cfg table"
    and "meta = columns_meta w (trace st) schema table"
    and "missing = required_columns meta - set (map strip (columns df))"
    and "missing \<noteq> {}"
  shows "validate_and_align_df meta (normalize_nulls df) schema table (drop_extra_columns cfg)
       = Inl (ValueError_missing_required schema table (sorted_list_of_set missing))
     \<and> set (sorted_list_of_set missing) = missing
     \<and> (map_of dict_df dkey = Some (Some df) \<and> \<not> empty_df df
          \<and> table_exists w (trace st) schema table \<longrightarrow>
        load_one w cfg dict_df table dkey st
          = (Some (ValueError_missing_required schema table (sorted_list_of_set missing)), st))"
proof -
  have v: "validate_and_align_df meta (normalize_nulls df) schema table (drop_extra_columns cfg)
       = Inl (ValueError_missing_required schema table (sorted_list_of_set missing))"
    using validate_missing_required [of meta "normalize_nulls df" schema table "drop_extra_columns cfg"]
      assms(3,4) by (simp add: columns_normalize_nulls)
  have f: "finite missing"
    using assms(3) finite_required_columns by simp
  show ?thesis
    using v f assms(1,2) by (auto simp: load_one_def Let_def)
qed


subsection \<open>C7: columns that the table does not have\<close>











subsection \<open>C10: the result of a run\<close>

text \<open>The row counts form a dictionary: no key twice.\<close>

lemma for_each_invariant:
  assumes "\<And>x s e s'. P s \<Longrightarrow> body x s = (e, s') \<Longrightarrow> P s'"
    and "P s" and "for_each body xs s = (e, s')"
  shows "P s'"
  using assms(2,3)
proof (induction xs arbitrary: s)
  case Nil
  then show ?case by simp
next
  case (Cons x xs)
  obtain e1 s1 where b: "body x s = (e1, s1)" by (cases "body x s")
  have p1: "P s1" using assms(1) Cons.prems(1) b by blast
  show ?case
  proof (cases e1)
    case None
    then show ?thesis using Cons.IH [OF p1] Cons.prems(2) b by simp
  next
    case (Some a)
    then show ?thesis using Cons.prems(2) b p1 by simp
  qed
qed

lemma load_one_rows_distinct:
  assumes "distinct (map fst (rows st))" and "load_one w cfg dict_df table dkey st = (e, st')"
  shows "distinct (map fst (rows st'))"
  using assms
  by (auto simp: load_one_def Let_def distinct_update
      split: option.splits if_splits sum.splits prod.splits)

lemma load_fallback_rows_distinct:
  assumes "distinct (map fst (rows st))" and "load_fallback w cfg dict_df dkey st = (e, st')"
  shows "distinct (map fst (rows st'))"
  using assms load_one_rows_distinct
  by (auto simp: load_fallback_def Let_def split: if_splits)

lemma load_tables_rows_distinct:
  assumes "load_tables w cfg dict_df plan tr = (e, st)"
  shows "distinct (map fst (rows st))"
proof -
  let ?s0 = "\<lparr>trace = tr, loaded_tables = [], loaded_keys = {}, rows = []\<rparr>"
  obtain e1 s1 where f1: "for_each (\<lambda>s. load_one w cfg dict_df (name s) (key s)) (order plan) ?s0 = (e1, s1)"
    by (cases "for_each (\<lambda>s. load_one w cfg dict_df (name s) (key s)) (order plan) ?s0")
  have d1: "distinct (map fst (rows s1))"
    by (rule for_each_invariant [where P = "\<lambda>s. distinct (map fst (rows s))", OF _ _ f1])
       (auto intro: load_one_rows_distinct)
  show ?thesis
  proof (cases e1)
    case (Some a)
    then show ?thesis using assms f1 d1 by (simp add: load_tables_def)
  next
    case None
    then have f2: "for_each (load_fallback w cfg dict_df) (map fst dict_df) s1 = (e, st)"
      using assms f1 by (simp add: load_tables_def)
    show ?thesis
      by (rule for_each_invariant [where P = "\<lambda>s. distinct (map fst (rows s))", OF _ d1 f2])
         (auto intro: load_fallback_rows_distinct)
  qed
qed

lemma finish_load_result:
  assumes "finish_load w cfg p ddl st = (Inr res, tr)"
  shows "res = \<lparr>tables_loaded = int (length (rows st)), rows_loaded = sum_list (map snd (rows st)),
                rows_by_table = rows st\<rparr>"
  using assms by (auto simp: finish_load_def Let_def split: prod.splits option.splits if_splits)

text \<open>
  C10: in every result that \<^verbatim>\<open>load\<close> returns, \<open>rows_loaded\<close> is the sum of the values of
  \<open>rows_by_table\<close> and \<open>tables_loaded\<close> the number of its entries, which have distinct
  keys; a DDL-only run returns the empty result.
\<close>

theorem load_result_consistent:
  assumes "load w dict_df cfg = (Inr res, tr)"
  shows "rows_loaded res = sum_list (map snd (rows_by_table res))
     \<and> tables_loaded res = int (length (rows_by_table res))
     \<and> distinct (map fst (rows_by_table res))
     \<and> (ddl_only cfg \<longrightarrow> res = \<lparr>tables_loaded = 0, rows_loaded = 0, rows_by_table = []\<rparr>)"
proof (cases "ddl_only cfg")
  case True
  then have "res = \<lparr>tables_loaded = 0, rows_loaded = 0, rows_by_table = []\<rparr>"
    using assms
    by (auto simp: load_def Let_def split: option.splits if_splits prod.splits sum.splits)
  then show ?thesis by simp
next
  case False
  then obtain plan tr1 st p ddl where lt: "load_tables w cfg dict_df plan tr1 = (None, st)"
    and fl: "finish_load w cfg p ddl st = (Inr res, tr)"
    using assms
    by (auto simp: load_def Let_def split: option.splits if_splits prod.splits sum.splits)
  have "distinct (map fst (rows st))"
    using load_tables_rows_distinct [OF lt] .
  then show ?thesis
    using finish_load_result [OF fl] False by simp
qed

section \<open>Properties of the script runner\<close>

lemma dropWhile_hd [simp]: "dropWhile (\<lambda>p. fst p \<noteq> n) ((n, x) # xs) = (n, x) # xs"
  by simp

lemma run_one_continue:
  assumes "\<not> autocommit c" "\<not> failed c"
  shows "run_one fails False False fname (idx, st) c =
     (None, c\<lparr>pending := pending c @ fst (expect fails fname (committed c @ pending c) [(idx, st)]),
              logged := logged c @ snd (expect fails fname (committed c @ pending c) [(idx, st)])\<rparr>)"
  using assms
  by (auto simp: run_one_def execute_def log_to_def Let_def)

lemma expect_Cons:
  "expect fails fname vis (x # xs) =
     (fst (expect fails fname vis [x]) @ fst (expect fails fname (vis @ fst (expect fails fname vis [x])) xs),
      snd (expect fails fname vis [x]) @ snd (expect fails fname (vis @ fst (expect fails fname vis [x])) xs))"
  by (cases x) (simp add: Let_def)

lemma for_each_continue:
  assumes "\<not> autocommit c" "\<not> failed c"
  shows "for_each (run_one fails False False fname) ists c =
     (None, c\<lparr>pending := pending c @ fst (expect fails fname (committed c @ pending c) ists),
              logged := logged c @ snd (expect fails fname (committed c @ pending c) ists)\<rparr>)"
  using assms
proof (induction ists arbitrary: c)
  case Nil
  then show ?case by simp
next
  case (Cons x ists)
  obtain idx st where x: "x = (idx, st)" by (cases x)
  let ?c1 = "c\<lparr>pending := pending c @ fst (expect fails fname (committed c @ pending c) [x]),
              logged := logged c @ snd (expect fails fname (committed c @ pending c) [x])\<rparr>"
  have r: "run_one fails False False fname x c = (None, ?c1)"
    unfolding x using run_one_continue [OF Cons.prems] .
  have c1: "\<not> autocommit ?c1" "\<not> failed ?c1" using Cons.prems by simp_all
  show ?case
    using Cons.IH [OF c1] r
    by (simp add: expect_Cons [of fails fname _ x ists])
qed

subsection \<open>C8: continue on error\<close>

text \<open>
  C8: with \<^verbatim>\<open>fail_fast\<close> disabled on a connection that is not in autocommit mode, every
  statement of a file runs in a savepoint of its own. No exception leaves the run; the
  transaction of the file is committed with the effects of exactly the statements that
  succeeded, each run on the effects of those that succeeded before it; a statement
  that fails is rolled back alone and logged with file name, statement index and
  starting line. For a file of three statements of which the second fails, the first
  and the third are committed and the second is logged (the instance after the theorem).
\<close>

theorem continue_on_error_runs_each_statement:
  assumes "\<not> autocommit c" and "\<not> failed c" and "statements \<noteq> []"
    and "ists = zip [1..<Suc (length statements)] statements"
  shows "run_statements fails False fname statements c =
     (None, c\<lparr>committed := committed c @ pending c
                  @ fst (expect fails fname (committed c @ pending c) ists),
              pending := [], savepoints := [],
              logged := logged c @ snd (expect fails fname (committed c @ pending c) ists)\<rparr>)"
  using assms for_each_continue [OF assms(1,2), of fails fname ists]
  by (simp add: run_statements_def commit_def Let_def)

theorem continue_on_error_runs_each_statement_witness:
  "\<not> autocommit session0 \<and> \<not> failed session0
   \<and> split_sql_statements ascii_alnum
        (cps ''CREATE TABLE a();'' @ [NL] @ cps ''CREATE TABLE a();'' @ [NL] @ cps ''CREATE TABLE b();'')
      = Some [\<lparr>sql = cps ''CREATE TABLE a();'', start_line = 1\<rparr>,
              \<lparr>sql = cps ''CREATE TABLE a();'', start_line = 2\<rparr>,
              \<lparr>sql = cps ''CREATE TABLE b();'', start_line = 3\<rparr>]
   \<and> run_file ascii_alnum already_there False (cps ''tables.sql'')
        (cps ''CREATE TABLE a();'' @ [NL] @ cps ''CREATE TABLE a();'' @ [NL] @ cps ''CREATE TABLE b();'')
        session0
      = (None, \<lparr>committed = [cps ''CREATE TABLE a();'', cps ''CREATE TABLE b();''], pending = [],
                savepoints = [], failed = False, autocommit = False,
                logged = [Exception_continuing (cps ''tables.sql'') 2 2]\<rparr>)"
proof -
  let ?sts = "[\<lparr>sql = cps ''CREATE TABLE a();'', start_line = 1\<rparr>,
              \<lparr>sql = cps ''CREATE TABLE a();'', start_line = 2\<rparr>,
              \<lparr>sql = cps ''CREATE TABLE b();'', start_line = 3\<rparr>]"
  have a: "\<not> autocommit session0" and f: "\<not> failed session0"
    by (simp_all add: session0_def)
  have s: "split_sql_statements ascii_alnum
        (cps ''CREATE TABLE a();'' @ [NL] @ cps ''CREATE TABLE a();'' @ [NL] @ cps ''CREATE TABLE b();'')
      = Some ?sts"
    by (simp add: split_sql_statements_def cps_def init_state_def scan_eval strip_eval)
  have z: "zip [1..<Suc (length ?sts)] ?sts = [(1, ?sts ! 0), (2, ?sts ! 1), (3, ?sts ! 2)]"
    by (simp add: upt_rec)
  have ne: "?sts \<noteq> []" by simp
  have e: "expect already_there (cps ''tables.sql'') (committed session0 @ pending session0)
        (zip [1..<Suc (length ?sts)] ?sts)
      = ([cps ''CREATE TABLE a();'', cps ''CREATE TABLE b();''],
         [Exception_continuing (cps ''tables.sql'') 2 2])"
    unfolding z
    by (simp add: session0_def already_there_def cps_def strip_eval startswith_def
        escape_percent_def Let_def)
  show ?thesis
    using continue_on_error_runs_each_statement [OF a f ne refl, of already_there "cps ''tables.sql''"]
      a f s
    unfolding e by (simp add: run_file_def session0_def)
qed

section \<open>A run of the loader\<close>

lemma for_each_load_one_empty:
  "for_each (\<lambda>s. load_one w cfg [] (name s) (key s)) xs st = (None, st)"
  by (induction xs) (simp_all add: load_one_def)

lemma load_tables_empty:
  "load_tables w cfg [] plan tr = (None, \<lparr>trace = tr, loaded_tables = [], loaded_keys = {}, rows = []\<rparr>)"
  by (simp add: load_tables_def for_each_load_one_empty)

subsection \<open>C9: the order of the scripts after the load\<close>

text \<open>
  C9 says that the pass after the load runs the indexes first, then the foreign keys,
  the comments and the triggers, as the docstring of \<^verbatim>\<open>load\<close> does. In a run of \<^verbatim>\<open>load\<close>
  with the default arguments on an empty mapping, with all seven scripts in place,
  the statement of \<^verbatim>\<open>04_foreign_keys.sql\<close> is sent before the statement of
  \<^verbatim>\<open>05_indexes.sql\<close>: \<^verbatim>\<open>DEFAULT_POST_DDL_FILES\<close> lists the foreign keys first.
\<close>

theorem post_ddl_runs_foreign_keys_first:
  "executed (snd (load world0 [] config0)) =
     [cps ''DROP SCHEMA IF EXISTS '' @ [DQUOTE] @ cps ''core'' @ [DQUOTE] @ cps '' CASCADE;'',
      cps ''DROP SCHEMA IF EXISTS '' @ [DQUOTE] @ cps ''ingest'' @ [DQUOTE] @ cps '' CASCADE;'',
      cps ''DROP SCHEMA IF EXISTS '' @ [DQUOTE] @ cps ''audit'' @ [DQUOTE] @ cps '' CASCADE;'',
      cps ''CREATE SCHEMA core;'',
      cps ''CREATE TABLE t (a int);'',
      cps ''ALTER TABLE t ADD CHECK (a > 0);'',
      cps ''ALTER TABLE t ADD FOREIGN KEY (a) REFERENCES u;'',
      cps ''CREATE INDEX i ON t (a);'',
      cps ''COMMENT ON TABLE t IS NULL;'',
      cps ''CREATE TRIGGER g AFTER INSERT ON t EXECUTE FUNCTION f();'']"
proof -
  obtain ordered where p: "build_savh_load_plan = Inr \<lparr>specs = savh_specs, order = ordered\<rparr>"
    using plan_exists by blast
  show ?thesis
    by (simp add: load_def p load_tables_empty resolve_dsn_def reset_db_def drop_schema_def
        pg_exec_def run_sql_files_def run_sql_file_def run_statement_def finish_load_def
        world0_def config0_def files0_def DEFAULT_PRE_DDL_FILES_def DEFAULT_POST_DDL_FILES_def
        executed_def escape_percent_def raised_def
        split_sql_statements_def cps_def init_state_def scan_eval strip_eval Let_def)
qed

section \<open>Runs of the loader on a schema with one table\<close>

text \<open>The data base of \<^term>\<open>world1\<close> has the single table \<^verbatim>\<open>core.notes\<close> with the
  required column \<^verbatim>\<open>title\<close> and the nullable column \<^verbatim>\<open>body\<close>.\<close>

theorem missing_required_column_fails_before_write_witness:
  "cps ''core'' = schema_for_table config0 (cps ''notes'')
   \<and> notes_meta = columns_meta world1 (trace state0) (cps ''core'') (cps ''notes'')
   \<and> required_columns notes_meta - set (map strip (columns (frame [cps ''body'', cps ''extra''])))
       = {cps ''title''}
   \<and> map_of [(cps ''notes'', Some (frame [cps ''body'', cps ''extra'']))] (cps ''notes'')
       = Some (Some (frame [cps ''body'', cps ''extra'']))
   \<and> \<not> empty_df (frame [cps ''body'', cps ''extra''])
   \<and> table_exists world1 (trace state0) (cps ''core'') (cps ''notes'')
   \<and> load_one world1 config0 [(cps ''notes'', Some (frame [cps ''body'', cps ''extra'']))]
         (cps ''notes'') (cps ''notes'') state0
       = (Some (ValueError_missing_required (cps ''core'') (cps ''notes'') [cps ''title'']), state0)"
proof -
  let ?df = "frame [cps ''body'', cps ''extra'']"
  have s: "cps ''core'' = schema_for_table config0 (cps ''notes'')"
    by (simp add: schema_for_table_def config0_def cps_def)
  have m: "notes_meta = columns_meta world1 (trace state0) (cps ''core'') (cps ''notes'')"
    by (simp add: world1_def world0_def)
  have r: "{cps ''title''} = required_columns notes_meta - set (map strip (columns ?df))"
    by (auto simp: required_columns_def notes_meta_def frame_def columns_def cps_def strip_eval)
  have ne: "{cps ''title''} \<noteq> {}" by simp
  have d: "map_of [(cps ''notes'', Some ?df)] (cps ''notes'') = Some (Some ?df)" by simp
  have e: "\<not> empty_df ?df" by (simp add: empty_df_def frame_def)
  have t: "table_exists world1 (trace state0) (cps ''core'') (cps ''notes'')"
    by (simp add: world1_def world0_def)
  show ?thesis
    using missing_required_column_fails_before_write [OF s m r ne,
        of "[(cps ''notes'', Some ?df)]" "cps ''notes''"]
      s m r [symmetric] d e t
    by (simp add: sorted_single)
qed


lemma for_each_load_one_absent:
  "(\<forall>s\<in>set xs. map_of dict_df (key s) = None) \<Longrightarrow>
   for_each (\<lambda>s. load_one w cfg dict_df (name s) (key s)) xs st = (None, st)"
  by (induction xs) (simp_all add: load_one_def)

lemma savh_keys_not_notes: "\<forall>s\<in>set savh_specs. key s \<noteq> cps ''notes''"
  by (simp add: savh_specs_def table_spec_def key_def cps_def)

theorem load_result_consistent_witness:
  "fst (load world1 [(cps ''notes'', Some (frame [cps ''title'', cps ''body'']))] config1)
     = Inr \<lparr>tables_loaded = 1, rows_loaded = 2, rows_by_table = [(cps ''core.notes'', 2)]\<rparr>
   \<and> \<not> ddl_only config1"
proof -
  let ?dict = "[(cps ''notes'', Some (frame [cps ''title'', cps ''body'']))]"
  let ?res = "\<lparr>tables_loaded = 1, rows_loaded = 2, rows_by_table = [(cps ''core.notes'', 2)]\<rparr>"
  obtain ordered where p: "build_savh_load_plan = Inr \<lparr>specs = savh_specs, order = ordered\<rparr>"
    and so: "set ordered = set savh_specs"
    using plan_exists by blast
  have ab: "\<forall>s\<in>set ordered. map_of ?dict (key s) = None"
    using savh_keys_not_notes so by simp
  have v: "validate_and_align_df notes_meta (normalize_nulls (frame [cps ''title'', cps ''body'']))
      (cps ''core'') (cps ''notes'') True
    = Inr ([], normalize_nulls (frame [cps ''title'', cps ''body'']))"
    by (simp add: validate_and_align_df_def Let_def required_columns_def notes_meta_def
        getitem_def strip_columns_def columns_def frame_def normalize_nulls_def cps_def strip_eval)
  have lt: "load_tables world1 config1 ?dict \<lparr>specs = savh_specs, order = ordered\<rparr> tr
      = (None, \<lparr>trace = tr @ [Log (Info_loading (cps ''core'') (cps ''notes'') 2 2), Begin,
                   To_sql (cps ''core'') (cps ''notes'')
                     (normalize_nulls (frame [cps ''title'', cps ''body''])) 5000, Commit],
               loaded_tables = [(cps ''core'', cps ''notes'')], loaded_keys = {cps ''notes''},
               rows = [(cps ''core.notes'', 2)]\<rparr>)" for tr
  proof -
    have c: "schema_for_table config1 (cps ''notes'') = cps ''core''"
      by (simp add: schema_for_table_def config1_def config0_def cps_def)
    have sn: "strip (cps ''notes'') = cps ''notes''" "DOT \<notin> set (cps ''notes'')"
        "cps ''notes'' \<noteq> []"
      by (simp_all add: cps_def strip_eval)
    have sc: "strip_columns (normalize_nulls (frame [cps ''title'', cps ''body'']))
        = normalize_nulls (frame [cps ''title'', cps ''body''])"
      by (simp add: strip_columns_def normalize_nulls_def frame_def cps_def strip_eval)
    have w: "table_exists world1 t (cps ''core'') (cps ''notes'')"
        "columns_meta world1 t (cps ''core'') (cps ''notes'') = notes_meta"
        "to_sql_outcome world1 t a b d = Done" for t a b d
      by (simp_all add: world1_def world0_def)
    have cf: "core_schema config1 = cps ''core''" "drop_extra_columns config1" "pg_chunksize config1 = 5000"
      by (simp_all add: config1_def config0_def)
    have e: "\<not> empty_df (frame [cps ''title'', cps ''body''])"
      by (simp add: empty_df_def frame_def)
    have nr: "n_rows (normalize_nulls (frame [cps ''title'', cps ''body''])) = 2"
        "length (series (normalize_nulls (frame [cps ''title'', cps ''body'']))) = 2"
      by (simp_all add: normalize_nulls_def frame_def)
    have k: "cps ''core'' @ cps ''.'' @ cps ''notes'' = cps ''core.notes''"
      by (simp add: cps_def)
    show ?thesis
      by (simp add: load_tables_def for_each_load_one_absent [OF ab] load_fallback_def load_one_def
          write_dataframe_def Let_def c sn sc w cf e nr v k)
  qed
  have rd: "resolve_dsn world1 config1 = Some (cps ''postgresql://localhost/savh'')"
    by (simp add: resolve_dsn_def config1_def config0_def)
  have ne: "cps ''postgresql://localhost/savh'' \<noteq> []"
    by (simp add: cps_def)
  have cf: "\<not> echo_sql config1" "\<not> ddl_only config1" "\<not> analyze config1"
    by (simp_all add: config1_def config0_def)
  have rs: "\<exists>tr. reset_db world1 config1 [] = (Inr False, tr)"
    by (simp add: reset_db_def create_schema_def pg_exec_def truncate_all_tables_def
        world1_def world0_def config1_def config0_def Let_def join_def quote_ident_def)
  then obtain tr1 where rs1: "reset_db world1 config1 [] = (Inr False, tr1)" ..
  have f: "fst (load world1 ?dict config1) = Inr ?res"
    by (simp add: load_def rd ne cf rs1 p lt finish_load_def Let_def)
  have l: "load world1 ?dict config1 = (Inr ?res, snd (load world1 ?dict config1))"
    using f by (metis prod.collapse)
  have d: "\<not> ddl_only config1" by (simp add: config1_def config0_def)
  show ?thesis
    using load_result_consistent [OF l] f d by simp
qed

end
